theory Spec2Isabelle
  imports Complex_Main
begin

section \<open>Strings\<close>

text \<open>
  The program is \<^verbatim>\<open>email_to_replies.py\<close> (Python 3). A Python \<^verbatim>\<open>str\<close> is modelled
  as a \<^typ>\<open>string\<close>, one \<^typ>\<open>char\<close> per character, and the character classes of
  Python are modelled on the ASCII range: a character outside ASCII is neither alphabetic
  nor whitespace here and has no other case.
\<close>

definition newline :: char where
  "newline = CHR 0x0A"

text \<open>\<^verbatim>\<open>str.isspace\<close> on one character: TAB, LF, VT, FF, CR, FS, GS, RS, US and space.\<close>

definition isspace :: "char \<Rightarrow> bool" where
  "isspace c = (let n = (of_char c :: nat) in (9 \<le> n \<and> n \<le> 13) \<or> (28 \<le> n \<and> n \<le> 32))"

text \<open>\<^verbatim>\<open>str.isalpha\<close> on one character.\<close>

definition isalpha :: "char \<Rightarrow> bool" where
  "isalpha c = (let n = (of_char c :: nat) in (65 \<le> n \<and> n \<le> 90) \<or> (97 \<le> n \<and> n \<le> 122))"

definition upper_char :: "char \<Rightarrow> char" where
  "upper_char c = (let n = (of_char c :: nat) in if 97 \<le> n \<and> n \<le> 122 then char_of (n - 32) else c)"

definition lower_char :: "char \<Rightarrow> char" where
  "lower_char c = (let n = (of_char c :: nat) in if 65 \<le> n \<and> n \<le> 90 then char_of (n + 32) else c)"

text \<open>\<^verbatim>\<open>str.upper\<close> and \<^verbatim>\<open>str.lower\<close>.\<close>

definition upper :: "string \<Rightarrow> string" where
  "upper s = map upper_char s"

definition lower :: "string \<Rightarrow> string" where
  "lower s = map lower_char s"

text \<open>
  \<^verbatim>\<open>str.split()\<close> without a separator: the maximal runs of characters that are not
  whitespace, in order; no token is empty. \<open>split_acc cur s\<close> scans \<open>s\<close> with the token
  read so far in \<open>cur\<close>.
\<close>

fun split_acc :: "string \<Rightarrow> string \<Rightarrow> string list" where
  "split_acc cur [] = (if cur = [] then [] else [cur])"
| "split_acc cur (c # cs) =
     (if isspace c then (if cur = [] then split_acc [] cs else cur # split_acc [] cs)
      else split_acc (cur @ [c]) cs)"

definition py_split :: "string \<Rightarrow> string list" where
  "py_split s = split_acc [] s"

text \<open>\<^verbatim>\<open>sep.join(xs)\<close>.\<close>

fun join :: "string \<Rightarrow> string list \<Rightarrow> string" where
  "join sep [] = []"
| "join sep [x] = x"
| "join sep (x # y # ys) = x @ sep @ join sep (y # ys)"

text \<open>\<^verbatim>\<open>str.strip()\<close>: whitespace removed at both ends.\<close>

definition strip :: "string \<Rightarrow> string" where
  "strip s = rev (dropWhile isspace (rev (dropWhile isspace s)))"

text \<open>
  \<^verbatim>\<open>s.split(d)\<close> for a one-character separator \<open>d\<close>: the pieces between the
  separators, empty pieces kept; the result is never empty (\<^verbatim>\<open>"".split("\n")\<close> is
  \<^verbatim>\<open>[""]\<close>), so the second case of the inner \<open>case\<close> is the only one taken.
\<close>

fun split_on :: "char \<Rightarrow> string \<Rightarrow> string list" where
  "split_on d [] = [[]]"
| "split_on d (c # cs) =
     (if c = d then [] # split_on d cs
      else (case split_on d cs of [] \<Rightarrow> [[c]] | l # ls \<Rightarrow> (c # l) # ls))"

text \<open>\<^verbatim>\<open>t in s\<close> on strings: \<open>t\<close> occurs in \<open>s\<close> as a contiguous substring.\<close>

fun str_in :: "string \<Rightarrow> string \<Rightarrow> bool" where
  "str_in t [] = (t = [])"
| "str_in t (c # cs) = (take (length t) (c # cs) = t \<or> str_in t cs)"

text \<open>
  \<^verbatim>\<open>s.replace(pat, "")\<close>: every occurrence of \<open>pat\<close> removed, leftmost first, not
  overlapping.
\<close>

function str_remove :: "string \<Rightarrow> string \<Rightarrow> string" where
  "str_remove pat s =
     (if s = [] \<or> pat = [] then s
      else if take (length pat) s = pat then str_remove pat (drop (length pat) s)
      else hd s # str_remove pat (tl s))"
  by pat_completeness auto
termination
  by (relation "measure (\<lambda>(pat, s). length s)") auto

text \<open>
  Python slices \<^verbatim>\<open>xs[k:]\<close> and \<^verbatim>\<open>xs[:k]\<close> for an integer \<open>k\<close>: a negative index
  counts from the end, and an index out of range is clamped.
\<close>

definition slice_index :: "'a list \<Rightarrow> int \<Rightarrow> nat" where
  "slice_index xs k =
     (let n = int (length xs) in nat (if k < 0 then max 0 (n + k) else min k n))"

definition slice_from :: "'a list \<Rightarrow> int \<Rightarrow> 'a list" where
  "slice_from xs k = drop (slice_index xs k) xs"

definition slice_to :: "'a list \<Rightarrow> int \<Rightarrow> 'a list" where
  "slice_to xs k = take (slice_index xs k) xs"

text \<open>\<^verbatim>\<open>xs[a:b]\<close> for indices \<open>a\<close>, \<open>b\<close> that are not negative.\<close>

definition slice :: "'a list \<Rightarrow> nat \<Rightarrow> nat \<Rightarrow> 'a list" where
  "slice xs a b = drop a (take b xs)"

section \<open>The title set\<close>

datatype error = IndexError | ZeroDivisionError

text \<open>
  \<^verbatim>\<open>TITLES = set([t for t in open("_titles.txt").read().split() if t[0] != "#"])\<close>.
  The file \<^verbatim>\<open>_titles.txt\<close> is not part of the sources, so its text is the argument.
  \<^verbatim>\<open>t[0]\<close> raises \<^verbatim>\<open>IndexError\<close> on an empty token.
\<close>

fun titles_filter :: "string list \<Rightarrow> error + string list" where
  "titles_filter [] = Inr []"
| "titles_filter (t # ts) =
     (case t of
        [] \<Rightarrow> Inl IndexError
      | c # _ \<Rightarrow>
          (case titles_filter ts of
             Inl e \<Rightarrow> Inl e
           | Inr r \<Rightarrow> Inr (if c \<noteq> CHR ''#'' then t # r else r)))"

definition TITLES :: "string \<Rightarrow> error + string set" where
  "TITLES text = (case titles_filter (py_split text) of Inl e \<Rightarrow> Inl e | Inr r \<Rightarrow> Inr (set r))"

section \<open>The name sanitizer\<close>

text \<open>
  \<^verbatim>\<open>sanitize_name\<close>; the global \<^verbatim>\<open>TITLES\<close> is the first argument. The loop over the
  tokens of the name appends to \<^verbatim>\<open>sanitized_name\<close>, here the accumulator;
  \<open>alpha_only\<close> is the token without its non-alphabetic characters.
\<close>

definition alpha_only :: "string \<Rightarrow> string" where
  "alpha_only name_part = filter isalpha name_part"

fun sanitize_loop :: "string set \<Rightarrow> string list \<Rightarrow> string list \<Rightarrow> string list" where
  "sanitize_loop T [] sanitized = sanitized"
| "sanitize_loop T (name_part # rest) sanitized =
     (if upper (alpha_only name_part) = alpha_only name_part then sanitize_loop T rest sanitized
      else if alpha_only name_part \<in> T then sanitize_loop T rest sanitized
      else sanitize_loop T rest (sanitized @ [alpha_only name_part]))"

definition sanitize_name :: "string set \<Rightarrow> string \<Rightarrow> string" where
  "sanitize_name T name = join '' '' (sanitize_loop T (py_split name) [])"

text \<open>The tokens that \<^verbatim>\<open>sanitize_name\<close> keeps: not their own upper case, not a title.\<close>

definition keep_token :: "string set \<Rightarrow> string \<Rightarrow> bool" where
  "keep_token T t = (upper t \<noteq> t \<and> t \<notin> T)"

section \<open>The contact parser\<close>

record contact =
  name_original :: string
  name :: string
  address :: "string option"

text \<open>
  \<^verbatim>\<open>re.match(r"(.*)[<\[](.*)[>\]]", line)\<close>. A dot matches every character but the
  newline, so the match lies in the text before the first newline of the line. Both groups
  are greedy: group 2 ends at the last closing bracket of that text, and group 1 ends at
  the last opening bracket before it. The result is the pair of the groups.
\<close>

definition is_open :: "char \<Rightarrow> bool" where
  "is_open c = (c = CHR ''<'' \<or> c = CHR ''['')"

definition is_close :: "char \<Rightarrow> bool" where
  "is_close c = (c = CHR ''>'' \<or> c = CHR '']'')"

definition match_contact :: "string \<Rightarrow> (string \<times> string) option" where
  "match_contact line =
     (let seg = takeWhile (\<lambda>c. c \<noteq> newline) line;
          upto_close = rev (dropWhile (\<lambda>c. \<not> is_close c) (rev seg))
      in if upto_close = [] then None
         else
           (let inner = butlast upto_close;
                upto_open = rev (dropWhile (\<lambda>c. \<not> is_open c) (rev inner));
                group2 = rev (takeWhile (\<lambda>c. \<not> is_open c) (rev inner))
            in if upto_open = [] then None else Some (butlast upto_open, group2)))"

definition get_contact :: "string set \<Rightarrow> string \<Rightarrow> contact" where
  "get_contact T line =
     (case match_contact line of
        Some (group1, group2) \<Rightarrow>
          \<lparr>name_original = strip group1,
           name = sanitize_name T (strip group1),
           address = Some (str_remove ''mailto:'' (strip group2))\<rparr>
      | None \<Rightarrow>
          \<lparr>name_original = line, name = sanitize_name T line, address = None\<rparr>)"

section \<open>The reply splitter\<close>

text \<open>
  \<^verbatim>\<open>re.sub(r".[-]+[\s]{0,}Original Message[\s]{0,}[-]+\n", "", message, flags=re.I)\<close>.
  \<open>match_separator s\<close> matches the pattern at the start of \<open>s\<close> and returns the text
  after the match. The pattern is: one character that is not a newline, one or more
  dashes, whitespace, the words in any case, whitespace, one or more dashes, a newline.
  Each repetition takes the whole run it can: what follows a run of dashes in the pattern
  never matches a dash, and what follows a run of whitespace never matches whitespace,
  so no shorter run leads to a match.
\<close>

definition is_dash :: "char \<Rightarrow> bool" where
  "is_dash c = (c = CHR ''-'')"

fun match_ci :: "string \<Rightarrow> string \<Rightarrow> string option" where
  "match_ci [] s = Some s"
| "match_ci (p # ps) [] = None"
| "match_ci (p # ps) (c # cs) = (if lower_char c = lower_char p then match_ci ps cs else None)"

definition match_separator :: "string \<Rightarrow> string option" where
  "match_separator s =
     (case s of
        [] \<Rightarrow> None
      | c # r0 \<Rightarrow>
          if c = newline \<or> takeWhile is_dash r0 = [] then None
          else
            (case match_ci ''Original Message'' (dropWhile isspace (dropWhile is_dash r0)) of
               None \<Rightarrow> None
             | Some r3 \<Rightarrow>
                 if takeWhile is_dash (dropWhile isspace r3) = [] then None
                 else
                   (case dropWhile is_dash (dropWhile isspace r3) of
                      [] \<Rightarrow> None
                    | e # r6 \<Rightarrow> if e = newline then Some r6 else None)))"

lemma match_ci_length: "match_ci p s = Some r \<Longrightarrow> length r \<le> length s"
proof (induction p s rule: match_ci.induct)
  case (3 p ps c cs)
  then show ?case by (auto split: if_splits)
qed auto

lemma match_separator_length:
  assumes "match_separator s = Some r"
  shows "length r < length s"
proof -
  obtain c r0 where s: "s = c # r0"
    using assms by (cases s) (auto simp: match_separator_def)
  obtain r3 where r3: "match_ci ''Original Message'' (dropWhile isspace (dropWhile is_dash r0)) = Some r3"
    using assms unfolding s match_separator_def by (auto split: if_splits option.splits)
  obtain e where e: "dropWhile is_dash (dropWhile isspace r3) = e # r"
    using assms r3 unfolding s match_separator_def
    by (auto split: if_splits option.splits list.splits)
  have "length r < length (dropWhile is_dash (dropWhile isspace r3))"
    by (simp add: e)
  also have "\<dots> \<le> length (dropWhile isspace r3)"
    by (rule length_dropWhile_le)
  also have "\<dots> \<le> length r3"
    by (rule length_dropWhile_le)
  also have "\<dots> \<le> length (dropWhile isspace (dropWhile is_dash r0))"
    using r3 by (rule match_ci_length)
  also have "\<dots> \<le> length (dropWhile is_dash r0)"
    by (rule length_dropWhile_le)
  also have "\<dots> \<le> length r0"
    by (rule length_dropWhile_le)
  finally show ?thesis by (simp add: s)
qed

text \<open>
  The substitution scans the message from the left: where the pattern matches, the match
  is removed and the scan goes on after it; elsewhere the character is kept.
\<close>

function re_sub_separator :: "string \<Rightarrow> string" where
  "re_sub_separator [] = []"
| "re_sub_separator (c # cs) =
     (case match_separator (c # cs) of
        Some rest \<Rightarrow> re_sub_separator rest
      | None \<Rightarrow> c # re_sub_separator cs)"
  by pat_completeness auto
termination
  by (relation "measure length") (auto dest: match_separator_length)

text \<open>
  \<^verbatim>\<open>get_replies\<close>; the argument is the text read from the message file. The loop
  over the lines keeps the index \<open>i\<close> and appends to \<^verbatim>\<open>breakpoints\<close>.
\<close>

fun find_breakpoints :: "nat \<Rightarrow> string list \<Rightarrow> nat list \<Rightarrow> nat list" where
  "find_breakpoints i [] breakpoints = breakpoints"
| "find_breakpoints i (line # rest) breakpoints =
     find_breakpoints (i + 1) rest
       (if take 6 line = ''From: '' then breakpoints @ [i] else breakpoints)"

definition breakpoint_pairs :: "nat list \<Rightarrow> (nat \<times> nat) list" where
  "breakpoint_pairs breakpoints =
     map (\<lambda>br. (breakpoints ! br, breakpoints ! (br + 1))) [0..<length breakpoints - 1]"

definition message_lines :: "string \<Rightarrow> string list" where
  "message_lines message = split_on newline (re_sub_separator message)"

definition get_replies :: "string \<Rightarrow> string list list" where
  "get_replies message =
     (let lines = message_lines message;
          breakpoints = find_breakpoints 0 lines [0] @ [length lines]
      in map (\<lambda>bp. slice lines (fst bp) (snd bp)) (breakpoint_pairs breakpoints))"

text \<open>
  Two notions to relate the result of \<^verbatim>\<open>get_replies\<close> to the lines of the message.
  \<open>has_words s\<close>: the words "Original Message" occur in \<open>s\<close>, in any case, matched as the
  pattern matches them.
\<close>

fun has_words :: "string \<Rightarrow> bool" where
  "has_words [] = False"
| "has_words (c # cs) = (match_ci ''Original Message'' (c # cs) \<noteq> None \<or> has_words cs)"

text \<open>
  \<open>separator_line l\<close>: the pattern without its final newline matches the whole line \<open>l\<close>,
  that is, \<open>l\<close> is one character, one or more dashes, whitespace if any, the words in
  any case, whitespace if any, and one or more dashes up to the end of the line.
\<close>

definition separator_line :: "string \<Rightarrow> bool" where
  "separator_line l =
     (case l of
        [] \<Rightarrow> False
      | c # r0 \<Rightarrow>
          takeWhile is_dash r0 \<noteq> [] \<and>
          (case match_ci ''Original Message'' (dropWhile isspace (dropWhile is_dash r0)) of
             None \<Rightarrow> False
           | Some r3 \<Rightarrow>
               dropWhile isspace r3 \<noteq> [] \<and> dropWhile is_dash (dropWhile isspace r3) = []))"

section \<open>The metadata extractor\<close>

record metadata =
  sender :: "contact option"
  recipients :: "contact list option"
  timestamp :: "string option"
  subject :: "string option"
  lines :: nat

text \<open>
  One pass of the loop body of \<^verbatim>\<open>get_metadata\<close> on a line. Appending to
  \<^verbatim>\<open>recipients\<close> while it is \<^verbatim>\<open>None\<close> raises \<^verbatim>\<open>AttributeError\<close>, which the code
  catches to start the list.
\<close>

definition metadata_step :: "string set \<Rightarrow> string \<Rightarrow> metadata \<Rightarrow> metadata" where
  "metadata_step T line m =
     (if take 6 line = ''From: '' then m\<lparr>sender := Some (get_contact T (drop 6 line))\<rparr>
      else if take 4 line = ''To: '' \<or> take 4 line = ''Cc: '' then
        (case recipients m of
           Some rs \<Rightarrow> m\<lparr>recipients := Some (rs @ [get_contact T (drop 4 line)])\<rparr>
         | None \<Rightarrow> m\<lparr>recipients := Some [get_contact T (drop 4 line)]\<rparr>)
      else if take 6 line = ''Sent: '' then m\<lparr>timestamp := Some (drop 6 line)\<rparr>
      else if take 9 line = ''Subject: '' then m\<lparr>subject := Some (drop 9 line)\<rparr>
      else m)"

text \<open>The loop: the line is handled, then the loop stops if \<open>i > 9\<close>, else \<open>i\<close> grows.\<close>

fun metadata_loop :: "string set \<Rightarrow> int \<Rightarrow> string list \<Rightarrow> metadata \<Rightarrow> metadata" where
  "metadata_loop T i [] m = m"
| "metadata_loop T i (line # rest) m =
     (if i > 9 then metadata_step T line m
      else metadata_loop T (i + 1) rest (metadata_step T line m))"

definition get_metadata :: "string set \<Rightarrow> string list \<Rightarrow> metadata" where
  "get_metadata T reply =
     metadata_loop T 0 reply
       \<lparr>sender = None, recipients = None, timestamp = None, subject = None,
        lines = length reply\<rparr>"

section \<open>The signature detector\<close>

record signature_metadata =
  has_signature :: bool
  signature :: "string option"
  reply_text :: "string option"
  address_in_signature :: bool

definition no_signature :: signature_metadata where
  "no_signature =
     \<lparr>has_signature = False, signature = None, reply_text = None,
      address_in_signature = False\<rparr>"

text \<open>
  What \<^verbatim>\<open>get_signature\<close> returns when the line at \<open>reply[i-1]\<close> starts the signature.
  \<^verbatim>\<open>if sender["address"]\<close> is false for \<^verbatim>\<open>None\<close> and for the empty string.
\<close>

definition found_signature :: "string list \<Rightarrow> contact \<Rightarrow> int \<Rightarrow> signature_metadata" where
  "found_signature reply sndr i =
     (let sig = strip (join [newline] (slice_from reply (i - 1)));
          text = strip (join [newline] (slice_to reply (i - 1)))
      in \<lparr>has_signature = True, signature = Some sig, reply_text = Some text,
          address_in_signature =
            (case address sndr of
               None \<Rightarrow> False
             | Some a \<Rightarrow> if a = [] then False else str_in (lower a) (lower sig))\<rparr>)"

text \<open>
  The test of the loop body: the tokens of the sanitized line, all of them found in the
  sender's name, and more than one of them.
\<close>

definition line_tokens :: "string set \<Rightarrow> string \<Rightarrow> string list" where
  "line_tokens T line = py_split (sanitize_name T line)"

definition found_sender :: "contact \<Rightarrow> string list \<Rightarrow> string list" where
  "found_sender sndr tokens = filter (\<lambda>t. str_in (lower t) (lower (name sndr))) tokens"

definition starts_signature :: "string set \<Rightarrow> contact \<Rightarrow> string \<Rightarrow> bool" where
  "starts_signature T sndr line =
     (length (line_tokens T line) > 1 \<and> found_sender sndr (line_tokens T line) = line_tokens T line)"

text \<open>
  The loop over the reversed reply, with the counters \<open>i\<close> and \<open>j\<close>.
  \<^verbatim>\<open>max_length = len(reply_reversed)/length_divisor\<close> is a true division in Python 3;
  its result is a float, modelled here by the exact quotient, a rational.
  \<^verbatim>\<open>j == max_length\<close> compares the integer with that quotient: for a reply of fewer
  than \<open>2^53\<close> lines the float is a whole number only if the exact quotient is.
\<close>

fun signature_loop ::
  "string set \<Rightarrow> string list \<Rightarrow> contact \<Rightarrow> rat \<Rightarrow> int \<Rightarrow> int \<Rightarrow> string list \<Rightarrow> signature_metadata"
where
  "signature_loop T reply sndr max_length i j [] = no_signature"
| "signature_loop T reply sndr max_length i j (line # rest) =
     (if of_int j = max_length then no_signature
      else if starts_signature T sndr line then found_signature reply sndr i
      else signature_loop T reply sndr max_length (i - 1) (j + 1) rest)"

text \<open>
  \<^verbatim>\<open>get_signature\<close>. The division raises \<^verbatim>\<open>ZeroDivisionError\<close> when
  \<^verbatim>\<open>length_divisor\<close> is 0; nothing else in the function raises.
\<close>

definition get_signature ::
  "string set \<Rightarrow> string list \<Rightarrow> contact \<Rightarrow> int \<Rightarrow> error + signature_metadata"
where
  "get_signature T reply sndr length_divisor =
     (if length_divisor = 0 then Inl ZeroDivisionError
      else Inr (signature_loop T reply sndr
                  (of_nat (length reply) / of_int length_divisor)
                  (int (length reply)) 0 (rev reply)))"

section \<open>Properties of the name sanitizer\<close>

lemma sanitize_loop_filter:
  "sanitize_loop T xs acc = acc @ filter (keep_token T) (map alpha_only xs)"
  by (induction xs arbitrary: acc) (auto simp: keep_token_def)

lemma isalpha_not_isspace: "isalpha c \<Longrightarrow> \<not> isspace c"
  by (auto simp: isalpha_def isspace_def Let_def)

lemma split_acc_token:
  "\<forall>c\<in>set tok. \<not> isspace c \<Longrightarrow> split_acc cur (tok @ rest) = split_acc (cur @ tok) rest"
  by (induction tok arbitrary: cur) auto

lemma py_split_join:
  "\<forall>t\<in>set toks. t \<noteq> [] \<and> (\<forall>c\<in>set t. \<not> isspace c) \<Longrightarrow> py_split (join '' '' toks) = toks"
proof (induction "'' ''" toks rule: join.induct)
  case 1
  then show ?case by (simp add: py_split_def)
next
  case (2 x)
  then show ?case using split_acc_token [of x "[]" "[]"] by (simp add: py_split_def)
next
  case (3 x y ys)
  have sp: "isspace (CHR '' '')" by (simp add: isspace_def)
  have "split_acc [] (x @ CHR '' '' # join '' '' (y # ys)) = split_acc x (CHR '' '' # join '' '' (y # ys))"
    using 3 split_acc_token [of x "[]"] by simp
  also have "\<dots> = x # split_acc [] (join '' '' (y # ys))"
    using 3 sp by simp
  finally show ?case using 3 by (simp add: py_split_def)
qed

lemma sanitized_tokens:
  "t \<in> set (sanitize_loop T xs []) \<Longrightarrow>
   t \<noteq> [] \<and> (\<forall>c\<in>set t. \<not> isspace c) \<and> alpha_only t = t \<and> keep_token T t"
  by (auto simp: sanitize_loop_filter alpha_only_def keep_token_def upper_def isalpha_not_isspace)

text \<open>A sanitized name is a fixed point of the sanitizer.\<close>

lemma sanitize_name_fixed:
  assumes "n = sanitize_name T s"
  shows "sanitize_name T n = n"
proof -
  define toks where "toks = sanitize_loop T (py_split s) []"
  have toks: "\<forall>t\<in>set toks. t \<noteq> [] \<and> (\<forall>c\<in>set t. \<not> isspace c)"
    unfolding toks_def using sanitized_tokens by blast
  have split: "py_split (join '' '' toks) = toks"
    using toks by (rule py_split_join)
  have "map alpha_only toks = toks"
    unfolding toks_def using sanitized_tokens by (simp add: map_idI)
  moreover have "filter (keep_token T) toks = toks"
    unfolding toks_def using sanitized_tokens by (simp add: filter_id_conv)
  ultimately have "sanitize_loop T toks [] = toks"
    by (simp add: sanitize_loop_filter)
  then show ?thesis
    by (simp add: assms sanitize_name_def split toks_def [symmetric])
qed

text \<open>
  Claim C9. The name sanitizer is idempotent: sanitizing a sanitized name returns it
  unchanged, for every string and every title set.
\<close>

theorem sanitize_name_idempotent:
  "sanitize_name T (sanitize_name T s) = sanitize_name T s"
  by (rule sanitize_name_fixed) (rule refl)

theorem sanitize_name_idempotent_witness:
  "sanitize_name {''Dr''} (sanitize_name {''Dr''} ''Dr John A. Smith, MD'') = ''John Smith''"
proof -
  have "sanitize_name {''Dr''} ''Dr John A. Smith, MD'' = ''John Smith''"
    by code_simp
  then show ?thesis
    using sanitize_name_idempotent [of "{''Dr''}" "''Dr John A. Smith, MD''"] by simp
qed

section \<open>Properties of the reply splitter\<close>

lemma split_on_not_Nil: "split_on d s \<noteq> []"
  by (induction s) (auto split: list.splits)

lemma find_breakpoints_ext:
  "\<exists>ext. find_breakpoints i ls bps = bps @ ext \<and> sorted ext \<and> (\<forall>k\<in>set ext. i \<le> k \<and> k < i + length ls)"
proof (induction ls arbitrary: i bps)
  case Nil
  then show ?case by simp
next
  case (Cons l ls)
  show ?case
  proof (cases "take 6 l = ''From: ''")
    case True
    obtain ext where ext: "find_breakpoints (i + 1) ls (bps @ [i]) = (bps @ [i]) @ ext"
      "sorted ext" "\<forall>k\<in>set ext. i + 1 \<le> k \<and> k < i + 1 + length ls"
      using Cons.IH [of "i + 1" "bps @ [i]"] by blast
    have "find_breakpoints i (l # ls) bps = bps @ (i # ext)"
      using True ext(1) by simp
    moreover have "sorted (i # ext)"
      using ext(2,3) by auto
    moreover have "\<forall>k\<in>set (i # ext). i \<le> k \<and> k < i + length (l # ls)"
      using ext(3) by auto
    ultimately show ?thesis by blast
  next
    case False
    obtain ext where ext: "find_breakpoints (i + 1) ls bps = bps @ ext"
      "sorted ext" "\<forall>k\<in>set ext. i + 1 \<le> k \<and> k < i + 1 + length ls"
      using Cons.IH [of "i + 1" bps] by blast
    have "find_breakpoints i (l # ls) bps = bps @ ext"
      using False ext(1) by simp
    moreover have "\<forall>k\<in>set ext. i \<le> k \<and> k < i + length (l # ls)"
      using ext(3) by auto
    ultimately show ?thesis using ext(2) by blast
  qed
qed

lemma breakpoint_pairs_zip: "breakpoint_pairs bps = zip bps (tl bps)"
  by (auto simp: breakpoint_pairs_def list_eq_iff_nth_eq nth_tl)

lemma slice_append:
  assumes "a \<le> b" "b \<le> c"
  shows "slice xs a b @ slice xs b c = slice xs a c"
proof -
  have c: "c = b + (c - b)" using assms by simp
  have "take c xs = take b xs @ take (c - b) (drop b xs)"
    by (subst c) (simp only: take_add)
  then have "drop a (take c xs) = drop a (take b xs) @ drop (a - length (take b xs)) (take (c - b) (drop b xs))"
    by simp
  also have "drop (a - length (take b xs)) (take (c - b) (drop b xs)) = take (c - b) (drop b xs)"
  proof (cases "b \<le> length xs")
    case True
    then show ?thesis using assms by (simp add: min_def)
  next
    case False
    then show ?thesis by simp
  qed
  finally show ?thesis by (simp add: slice_def drop_take)
qed

lemma concat_slices:
  "sorted bps \<Longrightarrow> bps \<noteq> [] \<Longrightarrow>
   concat (map (\<lambda>bp. slice xs (fst bp) (snd bp)) (zip bps (tl bps))) = slice xs (hd bps) (last bps)"
proof (induction bps)
  case Nil
  then show ?case by simp
next
  case (Cons a bps)
  show ?case
  proof (cases bps)
    case Nil
    then show ?thesis by (simp add: slice_def)
  next
    case (Cons b rest)
    have ab: "a \<le> b" using Cons.prems(1) Cons by simp
    have "sorted bps" using Cons.prems(1) by simp
    then have bl: "b \<le> last bps" using Cons
      by (metis last_in_set list.distinct(1) list.sel(1) list.set_cases set_ConsD sorted_simps(2) order_refl)
    have IH: "concat (map (\<lambda>bp. slice xs (fst bp) (snd bp)) (zip bps (tl bps))) = slice xs b (last bps)"
      using Cons.IH \<open>sorted bps\<close> Cons by simp
    show ?thesis
      using IH slice_append [OF ab bl, of xs] Cons by simp
  qed
qed

lemma replies_of_breakpoints:
  assumes "sorted ext" "\<forall>k\<in>set ext. k \<le> length xs"
  shows "concat (map (\<lambda>bp. slice xs (fst bp) (snd bp)) (breakpoint_pairs (0 # ext @ [length xs]))) = xs"
proof -
  have "sorted (0 # ext @ [length xs])"
    using assms by (auto simp: sorted_append)
  then have "concat (map (\<lambda>bp. slice xs (fst bp) (snd bp)) (zip (0 # ext @ [length xs]) (tl (0 # ext @ [length xs]))))
             = slice xs (hd (0 # ext @ [length xs])) (last (0 # ext @ [length xs]))"
    by (rule concat_slices) simp
  then show ?thesis
    by (simp add: breakpoint_pairs_zip slice_def)
qed

text \<open>
  Characters of the pattern: the words begin with the letters o and r, which are neither a
  dash nor whitespace, and hold no newline.
\<close>

lemma lower_char_O: "lower_char (CHR ''O'') = CHR ''o''"
  by code_simp

lemma lower_char_r: "lower_char (CHR ''r'') = CHR ''r''"
  by code_simp

lemma lower_char_dash: "lower_char (CHR ''-'') = CHR ''-''"
  by code_simp

lemma lower_char_newline: "lower_char newline = newline"
  by code_simp

lemma words_no_newline: "\<forall>x\<in>set ''Original Message''. lower_char x \<noteq> newline"
  by code_simp

lemma not_isspace_o: "\<not> isspace (CHR ''o'')"
  by code_simp

lemma not_isspace_r: "\<not> isspace (CHR ''r'')"
  by code_simp

lemma not_isspace_dash: "\<not> isspace (CHR ''-'')"
  by code_simp

lemma not_is_dash_newline: "\<not> is_dash newline"
  by code_simp

lemma isspace_newline: "isspace newline"
  by (simp add: isspace_def newline_def)

lemma isspace_lower_char: "isspace c \<Longrightarrow> lower_char c = c"
  by (auto simp: isspace_def lower_char_def Let_def)

lemma lower_o_plain: "lower_char c = CHR ''o'' \<Longrightarrow> \<not> is_dash c \<and> \<not> isspace c"
  using isspace_lower_char [of c] not_isspace_o lower_char_dash
  by (auto simp: is_dash_def)

lemma lower_r_plain: "lower_char c = CHR ''r'' \<Longrightarrow> \<not> is_dash c \<and> \<not> isspace c"
  using isspace_lower_char [of c] not_isspace_r lower_char_dash
  by (auto simp: is_dash_def)

lemma is_dash_not_isspace: "is_dash c \<Longrightarrow> \<not> isspace c"
  using not_isspace_dash by (simp add: is_dash_def)

lemma match_words_shape:
  assumes "match_ci ''Original Message'' v = Some r"
  shows "\<exists>x y w. v = x # y # w \<and> lower_char x = CHR ''o'' \<and> lower_char y = CHR ''r''"
proof (cases v)
  case Nil
  with assms show ?thesis by simp
next
  case (Cons x v')
  show ?thesis
  proof (cases v')
    case Nil
    with assms Cons show ?thesis by (simp split: if_splits)
  next
    case (Cons y w)
    with assms \<open>v = x # v'\<close> show ?thesis
      by (simp add: lower_char_O lower_char_r split: if_splits)
  qed
qed

lemma match_ci_suffix: "match_ci p s = Some r \<Longrightarrow> \<exists>w. s = w @ r"
proof (induction p s rule: match_ci.induct)
  case (3 p ps c cs)
  then obtain w where "cs = w @ r" by (auto split: if_splits)
  then have "c # cs = (c # w) @ r" by simp
  then show ?case by blast
qed auto

lemma match_ci_append: "match_ci p s = Some r \<Longrightarrow> match_ci p (s @ t) = Some (r @ t)"
  by (induction p s rule: match_ci.induct) (auto split: if_splits)

lemma match_ci_newline:
  "\<forall>x\<in>set p. lower_char x \<noteq> newline \<Longrightarrow> match_ci p (s @ newline # t) = Some r \<Longrightarrow>
   \<exists>r'. match_ci p s = Some r' \<and> r = r' @ newline # t"
proof (induction p s rule: match_ci.induct)
  case (1 s)
  then show ?case by simp
next
  case (2 p ps)
  then show ?case by (auto simp: lower_char_newline split: if_splits)
next
  case (3 p ps c cs)
  then show ?case by (auto split: if_splits)
qed

lemma dropWhile_append_ne: "dropWhile P xs \<noteq> [] \<Longrightarrow> dropWhile P (xs @ ys) = dropWhile P xs @ ys"
  by (induction xs) auto

lemma dropWhile_append_all: "dropWhile P xs = [] \<Longrightarrow> dropWhile P (xs @ ys) = dropWhile P ys"
  by (induction xs) (auto split: if_splits)

lemma takeWhile_append_ne: "takeWhile P xs \<noteq> [] \<Longrightarrow> takeWhile P (xs @ ys) \<noteq> []"
  by (cases xs) (auto split: if_splits)

lemma has_words_append: "has_words s \<Longrightarrow> has_words (a @ s)"
  by (induction a) auto

lemma has_words_match: "match_ci ''Original Message'' s = Some r \<Longrightarrow> has_words s"
  by (cases s) auto

lemma has_words_dropWhile: "has_words (dropWhile P s) \<Longrightarrow> has_words s"
  using has_words_append [of "dropWhile P s" "takeWhile P s"] by simp

lemma match_separator_newline:
  assumes "match_separator s = Some r"
  shows "newline \<in> set s"
proof -
  obtain c r0 where s: "s = c # r0"
    using assms by (cases s) (auto simp: match_separator_def)
  obtain r3 where r3: "match_ci ''Original Message'' (dropWhile isspace (dropWhile is_dash r0)) = Some r3"
    using assms unfolding s match_separator_def by (auto split: if_splits option.splits)
  have e: "dropWhile is_dash (dropWhile isspace r3) = newline # r"
    using assms r3 unfolding s match_separator_def
    by (auto split: if_splits option.splits list.splits)
  have "newline \<in> set (dropWhile is_dash (dropWhile isspace r3))"
    by (simp add: e)
  then have "newline \<in> set r3"
    by (auto dest!: set_dropWhileD)
  moreover obtain w where "dropWhile isspace (dropWhile is_dash r0) = w @ r3"
    using match_ci_suffix [OF r3] by blast
  ultimately have "newline \<in> set (dropWhile isspace (dropWhile is_dash r0))"
    by simp
  then have "newline \<in> set r0"
    by (auto dest!: set_dropWhileD)
  then show ?thesis by (simp add: s)
qed

lemma match_separator_has_words:
  assumes "match_separator s = Some r"
  shows "has_words s"
proof -
  obtain c r0 where s: "s = c # r0"
    using assms by (cases s) (auto simp: match_separator_def)
  obtain r3 where r3: "match_ci ''Original Message'' (dropWhile isspace (dropWhile is_dash r0)) = Some r3"
    using assms unfolding s match_separator_def by (auto split: if_splits option.splits)
  have "has_words (dropWhile isspace (dropWhile is_dash r0))"
    using r3 by (rule has_words_match)
  then have "has_words (dropWhile is_dash r0)" by (rule has_words_dropWhile)
  then have "has_words r0" by (rule has_words_dropWhile)
  then show ?thesis by (simp add: s)
qed

lemma re_sub_separator_no_match:
  "(\<And>a b. s = a @ b \<Longrightarrow> b \<noteq> [] \<Longrightarrow> match_separator (b @ t) = None) \<Longrightarrow>
   re_sub_separator (s @ t) = s @ re_sub_separator t"
proof (induction s)
  case Nil
  then show ?case by simp
next
  case (Cons c cs)
  have "match_separator ((c # cs) @ t) = None"
    by (rule Cons.prems) simp_all
  moreover have "re_sub_separator (cs @ t) = cs @ re_sub_separator t"
  proof (rule Cons.IH)
    fix a b
    assume "cs = a @ b" and b: "b \<noteq> []"
    then have "c # cs = (c # a) @ b" by simp
    then show "match_separator (b @ t) = None" using b by (rule Cons.prems)
  qed
  ultimately show ?case by simp
qed

lemma re_sub_separator_no_newline: "newline \<notin> set s \<Longrightarrow> re_sub_separator s = s"
proof -
  assume n: "newline \<notin> set s"
  have "re_sub_separator (s @ []) = s @ re_sub_separator []"
  proof (rule re_sub_separator_no_match)
    fix a b
    assume "s = a @ b"
    with n have "newline \<notin> set (b @ [])" by simp
    then show "match_separator (b @ []) = None"
      using match_separator_newline [of "b @ []"] by (cases "match_separator (b @ [])") auto
  qed
  then show ?thesis by simp
qed

lemma re_sub_separator_no_words: "\<not> has_words s \<Longrightarrow> re_sub_separator s = s"
proof (induction s)
  case Nil
  then show ?case by simp
next
  case (Cons c cs)
  have "match_separator (c # cs) = None"
    using Cons.prems match_separator_has_words [of "c # cs"]
    by (cases "match_separator (c # cs)") auto
  moreover have "\<not> has_words cs" using Cons.prems by simp
  ultimately show ?case using Cons.IH by simp
qed

lemma re_sub_separator_newline: "re_sub_separator (newline # t) = newline # re_sub_separator t"
  by (simp add: match_separator_def)

lemma separator_line_match:
  assumes "separator_line l" "newline \<notin> set l"
  shows "match_separator (l @ newline # t) = Some t"
proof -
  obtain c r0 where l: "l = c # r0"
    using assms(1) by (cases l) (auto simp: separator_line_def)
  have c: "c \<noteq> newline" using assms(2) l by auto
  have t1: "takeWhile is_dash r0 \<noteq> []"
    using assms(1) by (simp add: l separator_line_def)
  obtain r3 where r3: "match_ci ''Original Message'' (dropWhile isspace (dropWhile is_dash r0)) = Some r3"
    and d4: "dropWhile isspace r3 \<noteq> []" and d5: "dropWhile is_dash (dropWhile isspace r3) = []"
    using assms(1) by (auto simp: l separator_line_def split: option.splits)
  have d2: "dropWhile isspace (dropWhile is_dash r0) \<noteq> []"
  proof
    assume "dropWhile isspace (dropWhile is_dash r0) = []"
    with r3 show False by simp
  qed
  have d1: "dropWhile is_dash r0 \<noteq> []"
  proof
    assume "dropWhile is_dash r0 = []"
    with d2 show False by simp
  qed
  have a1: "dropWhile is_dash (r0 @ newline # t) = dropWhile is_dash r0 @ newline # t"
    using d1 by (rule dropWhile_append_ne)
  have a2: "dropWhile isspace (dropWhile is_dash r0 @ newline # t)
            = dropWhile isspace (dropWhile is_dash r0) @ newline # t"
    using d2 by (rule dropWhile_append_ne)
  have a3: "match_ci ''Original Message'' (dropWhile isspace (dropWhile is_dash r0) @ newline # t)
            = Some (r3 @ newline # t)"
    using r3 by (rule match_ci_append)
  have a4: "dropWhile isspace (r3 @ newline # t) = dropWhile isspace r3 @ newline # t"
    using d4 by (rule dropWhile_append_ne)
  have a5: "takeWhile is_dash (dropWhile isspace r3 @ newline # t) \<noteq> []"
  proof (rule takeWhile_append_ne)
    show "takeWhile is_dash (dropWhile isspace r3) \<noteq> []"
    proof
      assume e: "takeWhile is_dash (dropWhile isspace r3) = []"
      have "takeWhile is_dash (dropWhile isspace r3) @ dropWhile is_dash (dropWhile isspace r3)
            = dropWhile isspace r3"
        by (rule takeWhile_dropWhile_id)
      then have "dropWhile isspace r3 = []"
        by (simp only: e d5 append_Nil)
      with d4 show False by contradiction
    qed
  qed
  have a6: "dropWhile is_dash (dropWhile isspace r3 @ newline # t) = newline # t"
    using d5 not_is_dash_newline by (simp add: dropWhile_append_all)
  have a0: "takeWhile is_dash (r0 @ newline # t) \<noteq> []"
    using t1 by (rule takeWhile_append_ne)
  show ?thesis
    unfolding l match_separator_def
    using c a0 by (simp add: a1 a2 a3 a4 a5 a6 del: match_ci.simps)
qed

lemma separator_line_shape: "separator_line l \<Longrightarrow> \<exists>c d r. l = c # d # r \<and> is_dash d"
proof -
  assume a: "separator_line l"
  then obtain c r0 where l: "l = c # r0" and t: "takeWhile is_dash r0 \<noteq> []"
    by (cases l) (auto simp: separator_line_def)
  then obtain d r where "r0 = d # r" "is_dash d"
    by (cases r0) (auto split: if_splits)
  with l show ?thesis by blast
qed

lemma join_Cons: "ys \<noteq> [] \<Longrightarrow> join sep (x # ys) = x @ sep @ join sep ys"
  by (cases ys) simp_all

lemma join_split_on: "join [d] (split_on d s) = s"
proof (induction s)
  case Nil
  then show ?case by simp
next
  case (Cons c cs)
  obtain l ls where sp: "split_on d cs = l # ls"
    using split_on_not_Nil [of d cs] by (cases "split_on d cs") auto
  have j: "join [d] (l # ls) = cs"
    using Cons.IH by (simp add: sp)
  show ?case
  proof (cases "c = d")
    case True
    then show ?thesis using j by (simp add: sp)
  next
    case False
    have "join [d] ((c # l) # ls) = c # join [d] (l # ls)"
      by (cases ls) simp_all
    then show ?thesis using False j by (simp add: sp)
  qed
qed

lemma split_on_lines: "l \<in> set (split_on d s) \<Longrightarrow> d \<notin> set l"
proof (induction s arbitrary: l)
  case Nil
  then show ?case by simp
next
  case (Cons c cs)
  obtain k ks where sp: "split_on d cs = k # ks"
    using split_on_not_Nil [of d cs] by (cases "split_on d cs") auto
  have k: "d \<notin> set k" and ks: "\<And>x. x \<in> set ks \<Longrightarrow> d \<notin> set x"
    using Cons.IH by (simp_all add: sp)
  show ?case
  proof (cases "c = d")
    case True
    then show ?thesis using Cons.prems k ks by (auto simp: sp)
  next
    case False
    then show ?thesis using Cons.prems k ks by (auto simp: sp)
  qed
qed

lemma split_on_append: "d \<notin> set l \<Longrightarrow> split_on d (l @ d # t) = l # split_on d t"
  by (induction l) auto

lemma split_on_line: "d \<notin> set l \<Longrightarrow> split_on d l = [l]"
  by (induction l) auto

lemma split_on_join: "ks \<noteq> [] \<Longrightarrow> \<forall>l\<in>set ks. d \<notin> set l \<Longrightarrow> split_on d (join [d] ks) = ks"
proof (induction ks)
  case Nil
  then show ?case by simp
next
  case (Cons l ks)
  show ?case
  proof (cases ks)
    case Nil
    then show ?thesis using Cons.prems by (simp add: split_on_line)
  next
    case (Cons k ks')
    then have "split_on d (join [d] ks) = ks"
      using Cons.IH Cons.prems by simp
    then show ?thesis
      using Cons Cons.prems by (simp add: split_on_append)
  qed
qed

text \<open>
  The words of a match that begins after the whitespace at the start of some lines lie in
  the last line, when every other line with the words is a separator line: a separator
  line has a dash as its second character, where a match of the words after whitespace
  has whitespace or a letter.
\<close>

lemma words_after_space:
  assumes "ks \<noteq> []" "\<forall>l\<in>set ks. newline \<notin> set l"
    "\<forall>l\<in>set (butlast ks). has_words l \<longrightarrow> separator_line l"
    "match_ci ''Original Message'' (dropWhile isspace (join [newline] ks)) = Some r3"
  shows "newline \<notin> set r3"
  using assms
proof (induction ks)
  case Nil
  then show ?case by simp
next
  case (Cons l ks)
  show ?case
  proof (cases ks)
    case Nil
    obtain w where "dropWhile isspace l = w @ r3"
      using match_ci_suffix Cons.prems(4) Nil by fastforce
    then have "set r3 \<subseteq> set (dropWhile isspace l)" by simp
    then have "set r3 \<subseteq> set l" by (auto dest: set_dropWhileD)
    then show ?thesis using Cons.prems(2) by auto
  next
    case (Cons k ks')
    have j: "join [newline] (l # ks) = l @ newline # join [newline] ks"
      using Cons by simp
    show ?thesis
    proof (cases "dropWhile isspace l = []")
      case True
      have "dropWhile isspace (l @ newline # join [newline] ks) = dropWhile isspace (join [newline] ks)"
        using True isspace_newline by (simp add: dropWhile_append_all)
      then have m: "match_ci ''Original Message'' (dropWhile isspace (join [newline] ks)) = Some r3"
        using Cons.prems(4) j by simp
      have "\<forall>l\<in>set (butlast ks). has_words l \<longrightarrow> separator_line l"
        using Cons.prems(3) Cons by simp
      then show ?thesis
        using Cons.IH Cons.prems(2) m Cons by simp
    next
      case False
      then have "dropWhile isspace (l @ newline # join [newline] ks)
                 = dropWhile isspace l @ newline # join [newline] ks"
        by (rule dropWhile_append_ne)
      then have "match_ci ''Original Message'' (dropWhile isspace l @ newline # join [newline] ks) = Some r3"
        using Cons.prems(4) j by simp
      then obtain r' where m: "match_ci ''Original Message'' (dropWhile isspace l) = Some r'"
        using match_ci_newline [OF words_no_newline] by blast
      then have "has_words (dropWhile isspace l)" by (rule has_words_match)
      then have "has_words l" by (rule has_words_dropWhile)
      moreover have "l \<in> set (butlast (l # ks))" using Cons by simp
      ultimately have "separator_line l" using Cons.prems(3) by blast
      then obtain c d r where l: "l = c # d # r" and d: "is_dash d"
        using separator_line_shape by blast
      obtain x y w where v: "dropWhile isspace l = x # y # w"
        and x: "lower_char x = CHR ''o''" and y: "lower_char y = CHR ''r''"
        using match_words_shape [OF m] by blast
      have nd: "\<not> isspace d" using d by (rule is_dash_not_isspace)
      have False
      proof (cases "isspace c")
        case True
        then have "dropWhile isspace l = d # r"
          using nd by (simp add: l)
        then have "x = d" using v by simp
        then show False using x d lower_o_plain by blast
      next
        case False
        then have "dropWhile isspace l = c # d # r"
          by (simp add: l)
        then have "y = d" using v by simp
        then show False using y d lower_r_plain by blast
      qed
      then show ?thesis ..
    qed
  qed
qed

text \<open>
  No match begins inside a line without the words, when every line after it that holds the
  words, the last line apart, is a separator line.
\<close>

lemma no_match_in_line:
  assumes "\<not> has_words l" "l = a @ b" "b \<noteq> []" "ks \<noteq> []" "\<forall>k\<in>set ks. newline \<notin> set k"
    "\<forall>k\<in>set (butlast ks). has_words k \<longrightarrow> separator_line k"
  shows "match_separator (b @ newline # join [newline] ks) = None"
proof (rule ccontr)
  assume "match_separator (b @ newline # join [newline] ks) \<noteq> None"
  then obtain r where m: "match_separator (b @ newline # join [newline] ks) = Some r"
    by auto
  obtain c s' where b: "b = c # s'"
    using assms(3) by (cases b) auto
  define t where "t = join [newline] ks"
  have m': "match_separator (c # (s' @ newline # t)) = Some r"
    using m by (simp add: b t_def)
  obtain r3 where r3: "match_ci ''Original Message'' (dropWhile isspace (dropWhile is_dash (s' @ newline # t))) = Some r3"
    using m' unfolding match_separator_def by (auto split: if_splits option.splits)
  have e: "dropWhile is_dash (dropWhile isspace r3) = newline # r"
    using m' r3 unfolding match_separator_def
    by (auto split: if_splits option.splits list.splits)
  have "newline \<in> set (dropWhile is_dash (dropWhile isspace r3))"
    by (simp add: e)
  then have n: "newline \<in> set r3"
    by (auto dest!: set_dropWhileD)
  have nw: "\<not> has_words s'"
  proof
    assume "has_words s'"
    then have "has_words (a @ c # s')"
      using has_words_append [of "c # s'" a] by simp
    then show False using assms(1,2) b by simp
  qed
  have sp: "dropWhile isspace (newline # t) = dropWhile isspace t"
    using isspace_newline by simp
  have dn: "dropWhile is_dash (newline # t) = newline # t"
    using not_is_dash_newline by simp
  have after: "match_ci ''Original Message'' (dropWhile isspace t) = Some r3 \<Longrightarrow> False"
  proof -
    assume "match_ci ''Original Message'' (dropWhile isspace t) = Some r3"
    then have "newline \<notin> set r3"
      unfolding t_def using assms(4,5,6) words_after_space by blast
    with n show False by contradiction
  qed
  show False
  proof (cases "dropWhile is_dash s' = []")
    case True
    then have "dropWhile is_dash (s' @ newline # t) = newline # t"
      using dn by (simp add: dropWhile_append_all)
    then show False using r3 sp after by simp
  next
    case False
    then have d1: "dropWhile is_dash (s' @ newline # t) = dropWhile is_dash s' @ newline # t"
      by (rule dropWhile_append_ne)
    show False
    proof (cases "dropWhile isspace (dropWhile is_dash s') = []")
      case True
      then have "dropWhile isspace (dropWhile is_dash s' @ newline # t) = dropWhile isspace t"
        using sp by (simp add: dropWhile_append_all)
      then show False using r3 d1 after by simp
    next
      case False
      then have "dropWhile isspace (dropWhile is_dash s' @ newline # t)
                 = dropWhile isspace (dropWhile is_dash s') @ newline # t"
        by (rule dropWhile_append_ne)
      then have "match_ci ''Original Message'' (dropWhile isspace (dropWhile is_dash s') @ newline # t) = Some r3"
        using r3 d1 by simp
      then obtain r' where "match_ci ''Original Message'' (dropWhile isspace (dropWhile is_dash s')) = Some r'"
        using match_ci_newline [OF words_no_newline] by blast
      then have "has_words (dropWhile isspace (dropWhile is_dash s'))" by (rule has_words_match)
      then have "has_words (dropWhile is_dash s')" by (rule has_words_dropWhile)
      then have "has_words s'" by (rule has_words_dropWhile)
      with nw show False by contradiction
    qed
  qed
qed

text \<open>
  The pass on a text given by its lines: the separator lines before the last line are
  removed with their newline, and every other line is kept as it is.
\<close>

lemma re_sub_separator_lines:
  assumes "ks \<noteq> []" "\<forall>k\<in>set ks. newline \<notin> set k"
    "\<forall>k\<in>set (butlast ks). has_words k \<longrightarrow> separator_line k"
  shows "re_sub_separator (join [newline] ks)
         = join [newline] (filter (\<lambda>k. \<not> separator_line k) (butlast ks) @ [last ks])"
  using assms
proof (induction ks)
  case Nil
  then show ?case by simp
next
  case (Cons l ks)
  show ?case
  proof (cases ks)
    case Nil
    then show ?thesis using Cons.prems(2) by (simp add: re_sub_separator_no_newline)
  next
    case (Cons k ks')
    define t where "t = join [newline] ks"
    have ne: "ks \<noteq> []" using Cons by simp
    have j: "join [newline] (l # ks) = l @ newline # t"
      using Cons by (simp add: t_def)
    have nl: "\<forall>k\<in>set ks. newline \<notin> set k" using Cons.prems(2) by simp
    have bl: "butlast (l # ks) = l # butlast ks" using ne by simp
    have h: "\<forall>k\<in>set (butlast ks). has_words k \<longrightarrow> separator_line k"
      using Cons.prems(3) bl by simp
    have IH: "re_sub_separator t
              = join [newline] (filter (\<lambda>k. \<not> separator_line k) (butlast ks) @ [last ks])"
      unfolding t_def using ne nl h by (rule Cons.IH)
    have la: "last (l # ks) = last ks" using ne by simp
    show ?thesis
    proof (cases "separator_line l")
      case True
      then obtain c r0 where l: "l = c # r0"
        by (cases l) (auto simp: separator_line_def)
      have "match_separator (l @ newline # t) = Some t"
        using True Cons.prems(2) by (intro separator_line_match) simp_all
      then have "re_sub_separator (l @ newline # t) = re_sub_separator t"
        by (simp add: l)
      then show ?thesis
        using True IH by (simp only: j bl la filter.simps if_False not_True_eq_False)
    next
      case False
      then have nw: "\<not> has_words l" using Cons.prems(3) bl by auto
      have "re_sub_separator (l @ newline # t) = l @ re_sub_separator (newline # t)"
      proof (rule re_sub_separator_no_match)
        fix a b
        assume "l = a @ b" "b \<noteq> []"
        then show "match_separator (b @ newline # t) = None"
          unfolding t_def using nw ne nl h by (intro no_match_in_line [of l a b ks]) simp_all
      qed
      then have "re_sub_separator (l @ newline # t) = l @ newline # re_sub_separator t"
        by (simp only: re_sub_separator_newline)
      moreover have "join [newline] (l # (filter (\<lambda>k. \<not> separator_line k) (butlast ks) @ [last ks]))
                     = l @ [newline] @ join [newline] (filter (\<lambda>k. \<not> separator_line k) (butlast ks) @ [last ks])"
        by (rule join_Cons) simp
      ultimately show ?thesis
        using False IH ne by (simp add: j la)
    qed
  qed
qed

lemma concat_get_replies:
  "concat (get_replies message) = split_on newline (re_sub_separator message)"
proof -
  define ls where "ls = message_lines message"
  obtain ext where ext: "find_breakpoints 0 ls [0] = [0] @ ext" "sorted ext"
    "\<forall>k\<in>set ext. 0 \<le> k \<and> k < 0 + length ls"
    using find_breakpoints_ext [of 0 ls "[0]"] by blast
  have "concat (map (\<lambda>bp. slice ls (fst bp) (snd bp)) (breakpoint_pairs (0 # ext @ [length ls]))) = ls"
    using ext(2,3) by (intro replies_of_breakpoints) auto
  then show ?thesis
    using ext(1) by (simp add: get_replies_def ls_def [symmetric] message_lines_def [symmetric])
qed

text \<open>
  Claim C1, as stated: the replies of \<^verbatim>\<open>get_replies\<close>, concatenated in order, are the
  lines of the message without its "Original Message" separator lines, and nothing else is
  removed. It fails on a message whose separator line begins with a quoting mark and a
  space: the pattern matches from the space to the newline, so the mark stays and is
  joined to the next line. The line "From: Bob" of the message, which holds no separator
  words, is not among the lines returned, the line ">From: Bob" that is returned is not a
  line of the message, and the reply that should begin at "From: Bob" is not split off.
\<close>

theorem get_replies_separator_counterexample:
  "get_replies ''> -----Original Message-----\<newline>From: Bob\<newline>hello'' = [[''>From: Bob'', ''hello'']] \<and>
   split_on newline ''> -----Original Message-----\<newline>From: Bob\<newline>hello''
     = [''> -----Original Message-----'', ''From: Bob'', ''hello''] \<and>
   \<not> has_words ''From: Bob'' \<and>
   ''From: Bob'' \<notin> set (concat (get_replies ''> -----Original Message-----\<newline>From: Bob\<newline>hello'')) \<and>
   ''>From: Bob'' \<notin> set (split_on newline ''> -----Original Message-----\<newline>From: Bob\<newline>hello'')"
  by code_simp

text \<open>
  Claim C1, amended. For every message, the replies of \<^verbatim>\<open>get_replies\<close>, concatenated in
  order, are exactly the lines of the text that the removal pass leaves: no line of it is
  dropped, duplicated or added. The pass removes matches of the pattern, not lines. A
  message without the words "Original Message" is left as it is, so its own lines are
  returned. When every line of the message before the last one that holds the words is a
  separator line, the lines returned are the lines of the message without the separator
  lines that stand before the last line, each other line unchanged and in order; the last
  line is always kept, since no newline follows it.
\<close>

theorem get_replies_reconstructs:
  "concat (get_replies message) = split_on newline (re_sub_separator message) \<and>
   (\<not> has_words message \<longrightarrow> concat (get_replies message) = split_on newline message) \<and>
   ((\<forall>l\<in>set (butlast (split_on newline message)). has_words l \<longrightarrow> separator_line l) \<longrightarrow>
      concat (get_replies message) =
        filter (\<lambda>l. \<not> separator_line l) (butlast (split_on newline message)) @
        [last (split_on newline message)])"
proof (intro conjI impI)
  show "concat (get_replies message) = split_on newline (re_sub_separator message)"
    by (rule concat_get_replies)
next
  assume "\<not> has_words message"
  then show "concat (get_replies message) = split_on newline message"
    by (simp add: concat_get_replies re_sub_separator_no_words)
next
  define ks where "ks = split_on newline message"
  assume "\<forall>l\<in>set (butlast (split_on newline message)). has_words l \<longrightarrow> separator_line l"
  then have h: "\<forall>k\<in>set (butlast ks). has_words k \<longrightarrow> separator_line k"
    by (simp add: ks_def)
  have ne: "ks \<noteq> []" unfolding ks_def by (rule split_on_not_Nil)
  have nl: "\<forall>k\<in>set ks. newline \<notin> set k"
    unfolding ks_def using split_on_lines by blast
  have m: "message = join [newline] ks"
    unfolding ks_def by (simp add: join_split_on)
  have nl': "\<forall>k\<in>set (filter (\<lambda>k. \<not> separator_line k) (butlast ks) @ [last ks]). newline \<notin> set k"
    using nl ne by (auto dest: in_set_butlastD)
  have "re_sub_separator message
        = join [newline] (filter (\<lambda>k. \<not> separator_line k) (butlast ks) @ [last ks])"
    unfolding m using ne nl h by (rule re_sub_separator_lines)
  then have "split_on newline (re_sub_separator message)
        = filter (\<lambda>k. \<not> separator_line k) (butlast ks) @ [last ks]"
    using nl' by (simp only: split_on_join [OF _ nl'] append_is_Nil_conv not_Cons_self2 simp_thms)
  then show "concat (get_replies message) =
        filter (\<lambda>l. \<not> separator_line l) (butlast (split_on newline message)) @
        [last (split_on newline message)]"
    by (simp add: concat_get_replies ks_def)
qed

text \<open>
  The amended statement at a message of four lines whose second line is a separator line
  and the only line with the words, and at a message with dashes that does not hold the
  words.
\<close>

theorem get_replies_reconstructs_witness:
  "filter has_words (butlast (split_on newline ''hi - you\<newline>-----Original Message-----\<newline>From: a\<newline>bye''))
     = [''-----Original Message-----''] \<and>
   separator_line ''-----Original Message-----'' \<and>
   concat (get_replies ''hi - you\<newline>-----Original Message-----\<newline>From: a\<newline>bye'')
     = [''hi - you'', ''From: a'', ''bye''] \<and>
   \<not> has_words ''a--\<newline>From: b'' \<and>
   concat (get_replies ''a--\<newline>From: b'') = [''a--'', ''From: b'']"
proof -
  have h: "\<forall>l\<in>set (butlast (split_on newline ''hi - you\<newline>-----Original Message-----\<newline>From: a\<newline>bye'')).
             has_words l \<longrightarrow> separator_line l"
    by code_simp
  have "concat (get_replies ''hi - you\<newline>-----Original Message-----\<newline>From: a\<newline>bye'')
        = filter (\<lambda>l. \<not> separator_line l)
            (butlast (split_on newline ''hi - you\<newline>-----Original Message-----\<newline>From: a\<newline>bye'')) @
          [last (split_on newline ''hi - you\<newline>-----Original Message-----\<newline>From: a\<newline>bye'')]"
    using get_replies_reconstructs [of "''hi - you\<newline>-----Original Message-----\<newline>From: a\<newline>bye''"] h
    by blast
  also have "\<dots> = [''hi - you'', ''From: a'', ''bye'']"
    by code_simp
  finally have a: "concat (get_replies ''hi - you\<newline>-----Original Message-----\<newline>From: a\<newline>bye'')
                   = [''hi - you'', ''From: a'', ''bye'']" .
  have n: "\<not> has_words ''a--\<newline>From: b''"
    by code_simp
  have "concat (get_replies ''a--\<newline>From: b'') = split_on newline ''a--\<newline>From: b''"
    using get_replies_reconstructs [of "''a--\<newline>From: b''"] n by blast
  also have "\<dots> = [''a--'', ''From: b'']"
    by code_simp
  finally have b: "concat (get_replies ''a--\<newline>From: b'') = [''a--'', ''From: b'']" .
  have w: "filter has_words (butlast (split_on newline ''hi - you\<newline>-----Original Message-----\<newline>From: a\<newline>bye''))
           = [''-----Original Message-----'']"
    by code_simp
  have p: "separator_line ''-----Original Message-----''"
    by code_simp
  show ?thesis
    using w p a n b by blast
qed

text \<open>
  Claim C10. When the first line of the message (after the separators are removed)
  begins with "From: ", the first reply that \<^verbatim>\<open>get_replies\<close> returns is empty, and the
  replies after it hold all the lines of the message.
\<close>

theorem get_replies_leading_from:
  assumes "take 6 (hd (split_on newline (re_sub_separator message))) = ''From: ''"
  shows "get_replies message \<noteq> [] \<and> hd (get_replies message) = [] \<and>
         concat (tl (get_replies message)) = split_on newline (re_sub_separator message)"
proof -
  define ls where "ls = message_lines message"
  obtain l rest where ls: "ls = l # rest"
    using split_on_not_Nil [of newline "re_sub_separator message"]
    by (cases ls) (auto simp: ls_def message_lines_def)
  have lfrom: "take 6 l = ''From: ''"
    using assms ls by (simp add: ls_def message_lines_def)
  obtain ext where ext: "find_breakpoints 1 rest [0, 0] = [0, 0] @ ext" "sorted ext"
    "\<forall>k\<in>set ext. 1 \<le> k \<and> k < 1 + length rest"
    using find_breakpoints_ext [of 1 rest "[0, 0]"] by blast
  have bps: "find_breakpoints 0 ls [0] @ [length ls] = 0 # 0 # ext @ [length ls]"
    using ext(1) lfrom ls by simp
  have pairs: "breakpoint_pairs (0 # 0 # ext @ [length ls]) = (0, 0) # breakpoint_pairs (0 # ext @ [length ls])"
    by (simp add: breakpoint_pairs_zip)
  have replies: "get_replies message =
      [] # map (\<lambda>bp. slice ls (fst bp) (snd bp)) (breakpoint_pairs (0 # ext @ [length ls]))"
    using bps pairs by (simp add: get_replies_def ls_def [symmetric] slice_def)
  have "concat (map (\<lambda>bp. slice ls (fst bp) (snd bp)) (breakpoint_pairs (0 # ext @ [length ls]))) = ls"
    using ext(2,3) ls by (intro replies_of_breakpoints) auto
  then show ?thesis
    using replies by (simp add: ls_def message_lines_def)
qed

theorem get_replies_leading_from_witness:
  "take 6 (hd (split_on newline (re_sub_separator ''From: a\<newline>hi''))) = ''From: '' \<and>
   get_replies ''From: a\<newline>hi'' \<noteq> [] \<and>
   hd (get_replies ''From: a\<newline>hi'') = [] \<and>
   concat (tl (get_replies ''From: a\<newline>hi'')) = [''From: a'', ''hi'']"
proof -
  have l: "split_on newline (re_sub_separator ''From: a\<newline>hi'') = [''From: a'', ''hi'']"
    by code_simp
  have h: "take 6 (hd (split_on newline (re_sub_separator ''From: a\<newline>hi''))) = ''From: ''"
    unfolding l by simp
  show ?thesis
    using get_replies_leading_from [OF h] unfolding l by simp
qed

section \<open>Properties of the signature detector\<close>

text \<open>
  Claim C2. The claim is that \<^verbatim>\<open>get_signature\<close> looks at no more than
  \<open>floor(total_lines / length_divisor)\<close> lines from the end of the reply, so that no
  earlier line starts a signature. The code compares the counter with the quotient of a
  true division, which is a whole number only when the divisor divides the line count.
  For a reply of three lines and the divisor 2 the limit is 1, and yet the code walks back
  to the first line of the reply and takes it as the start of the signature.
\<close>

theorem get_signature_odd_length:
  "get_signature {} [''John Smith'', ''a'', ''b'']
     \<lparr>name_original = ''John Smith'', name = ''John Smith'', address = None\<rparr> 2
   = Inr \<lparr>has_signature = True, signature = Some ''John Smith\<newline>a\<newline>b'',
          reply_text = Some [], address_in_signature = False\<rparr>"
  by code_simp

text \<open>
  Claim C3, as stated: every \<^verbatim>\<open>length_divisor\<close> less than or equal to 0 makes
  \<^verbatim>\<open>get_signature\<close> raise. It fails for a negative divisor: with the divisor \<open>-1\<close>
  nothing is raised.
\<close>

theorem get_signature_negative_divisor:
  "\<not> isl (get_signature {} [] \<lparr>name_original = ''John Smith'', name = ''John Smith'', address = None\<rparr> (- 1))"
  by (simp add: get_signature_def)

text \<open>
  Claim C3, amended. \<^verbatim>\<open>get_signature\<close> raises exactly when \<^verbatim>\<open>length_divisor\<close> is 0,
  and the error is then the division by zero; for every other divisor, negative ones
  too, it returns a result.
\<close>

theorem get_signature_raises_iff_zero:
  "get_signature T reply sndr 0 = Inl ZeroDivisionError \<and>
   isl (get_signature T reply sndr d) = (d = 0)"
  by (simp add: get_signature_def)

theorem get_signature_raises_iff_zero_witness:
  "get_signature {} [''a'', ''b''] \<lparr>name_original = ''John Smith'', name = ''John Smith'', address = None\<rparr> 0 = Inl ZeroDivisionError \<and>
   isl (get_signature {} [''a'', ''b''] \<lparr>name_original = ''John Smith'', name = ''John Smith'', address = None\<rparr> 3) = False"
  using get_signature_raises_iff_zero
          [of "{}" "[''a'', ''b'']" "\<lparr>name_original = ''John Smith'', name = ''John Smith'', address = None\<rparr>" 3]
  by simp

text \<open>
  Claim C4, as stated: for the sender "John Smith" and a reply that ends with the lines
  "Thanks," and "John Smith", the signature is those two lines and the reply text is the
  lines above them. It fails: the signature starts at the last line whose tokens are all
  in the sender's name, which is the line "John Smith" itself, and "Thanks," stays in the
  reply text.
\<close>

theorem get_signature_thanks_counterexample:
  "get_signature {} [''Hello'', ''Thanks,'', ''John Smith'']
     \<lparr>name_original = ''John Smith'', name = ''John Smith'', address = None\<rparr> 2
   = Inr \<lparr>has_signature = True, signature = Some ''John Smith'',
          reply_text = Some ''Hello\<newline>Thanks,'', address_in_signature = False\<rparr> \<and>
   get_signature {} [''Hello'', ''Thanks,'', ''John Smith'']
     \<lparr>name_original = ''John Smith'', name = ''John Smith'', address = None\<rparr> 2
   \<noteq> Inr \<lparr>has_signature = True, signature = Some ''Thanks,\<newline>John Smith'',
          reply_text = Some ''Hello'', address_in_signature = False\<rparr>"
  by code_simp

lemma get_contact_name: "name (get_contact T line) = sanitize_name T (name_original (get_contact T line))"
  by (simp add: get_contact_def split: option.splits prod.splits)

lemma starts_signature_John_Smith:
  assumes "sndr = get_contact T line" "name sndr = ''John Smith''"
  shows "starts_signature T sndr ''John Smith''"
proof -
  have "''John Smith'' = sanitize_name T (name_original (get_contact T line))"
    using assms get_contact_name [of T line] by simp
  then have "sanitize_name T ''John Smith'' = ''John Smith''"
    by (rule sanitize_name_fixed)
  moreover have "py_split ''John Smith'' = [''John'', ''Smith'']"
    by code_simp
  ultimately have toks: "line_tokens T ''John Smith'' = [''John'', ''Smith'']"
    by (simp add: line_tokens_def)
  have "filter (\<lambda>t. str_in (lower t) (lower ''John Smith'')) [''John'', ''Smith''] = [''John'', ''Smith'']"
    by code_simp
  then have "found_sender sndr [''John'', ''Smith''] = [''John'', ''Smith'']"
    by (simp only: found_sender_def assms(2))
  then show ?thesis
    by (simp only: starts_signature_def toks) simp
qed

lemma found_signature_last:
  "found_signature (body @ [l]) sndr (int (length (body @ [l]))) =
     \<lparr>has_signature = True, signature = Some (strip l),
      reply_text = Some (strip (join [newline] body)),
      address_in_signature =
        (case address sndr of None \<Rightarrow> False
         | Some a \<Rightarrow> if a = [] then False else str_in (lower a) (lower (strip l)))\<rparr>"
  by (simp add: found_signature_def slice_from_def slice_to_def slice_index_def Let_def)

text \<open>
  Claim C4, amended. For a sender that \<^verbatim>\<open>get_contact\<close> returned and whose sanitized
  name is "John Smith", and any reply whose last two lines are "Thanks," and
  "John Smith", \<^verbatim>\<open>get_signature\<close> with the default divisor 2 finds a signature; the
  signature is the last line "John Smith" alone, and the reply text is all the lines
  above it, "Thanks," included, joined by newlines and stripped. The address is in the
  signature only if it is not empty and occurs in "john smith".
\<close>

theorem get_signature_John_Smith:
  assumes "sndr = get_contact T line" "name sndr = ''John Smith''"
  shows "get_signature T (body @ [''Thanks,'', ''John Smith'']) sndr 2 =
     Inr \<lparr>has_signature = True, signature = Some ''John Smith'',
          reply_text = Some (strip (join [newline] (body @ [''Thanks,'']))),
          address_in_signature =
            (case address sndr of None \<Rightarrow> False
             | Some a \<Rightarrow> if a = [] then False else str_in (lower a) ''john smith'')\<rparr>"
proof -
  have st: "starts_signature T sndr ''John Smith''"
    using assms by (rule starts_signature_John_Smith)
  have s: "strip ''John Smith'' = ''John Smith''" by code_simp
  have l: "lower ''John Smith'' = ''john smith''" by code_simp
  have f: "found_signature ((body @ [''Thanks,'']) @ [''John Smith'']) sndr
             (int (length ((body @ [''Thanks,'']) @ [''John Smith''])))
           = \<lparr>has_signature = True, signature = Some ''John Smith'',
          reply_text = Some (strip (join [newline] (body @ [''Thanks,'']))),
          address_in_signature =
            (case address sndr of None \<Rightarrow> False
             | Some a \<Rightarrow> if a = [] then False else str_in (lower a) ''john smith'')\<rparr>"
    unfolding found_signature_last s l ..
  have ne: "(0::rat) \<noteq> (2 + of_nat (length body)) / 2"
    by simp
  show ?thesis
    using st f ne by (simp add: get_signature_def)
qed


theorem get_signature_John_Smith_witness:
  "name (get_contact {} ''John Smith <JS@x.org>'') = ''John Smith'' \<and>
   get_signature {} [''Hello'', ''Thanks,'', ''John Smith''] (get_contact {} ''John Smith <JS@x.org>'') 2 =
     Inr \<lparr>has_signature = True, signature = Some ''John Smith'',
          reply_text = Some ''Hello\<newline>Thanks,'', address_in_signature = False\<rparr>"
proof -
  have h: "name (get_contact {} ''John Smith <JS@x.org>'') = ''John Smith''"
    by code_simp
  have a: "address (get_contact {} ''John Smith <JS@x.org>'') = Some ''JS@x.org''"
    by code_simp
  have t: "strip (join [newline] ([''Hello''] @ [''Thanks,''])) = ''Hello\<newline>Thanks,''"
    by code_simp
  have i: "str_in (lower ''JS@x.org'') ''john smith'' = False"
    by code_simp
  show ?thesis
    using get_signature_John_Smith [OF refl h, of "[''Hello'']"] h
    unfolding a t by (simp add: i del: str_in.simps)
qed

text \<open>
  Claim C7. The claim is that a reply of 0 or 1 lines never has a signature. For one line
  the limit \<open>1 / 2\<close> is not a whole number, the counter never equals it, and the code
  examines the line: a one-line reply that is the sender's name is returned as a
  signature. This is the defect of claim C2.
\<close>

theorem get_signature_one_line:
  "get_signature {} [''John Smith'']
     \<lparr>name_original = ''John Smith'', name = ''John Smith'', address = None\<rparr> 2
   = Inr \<lparr>has_signature = True, signature = Some ''John Smith'',
          reply_text = Some [], address_in_signature = False\<rparr>"
  by code_simp

section \<open>Properties of the metadata extractor\<close>

text \<open>
  The loop of \<^verbatim>\<open>get_metadata\<close> started at \<open>i = 0\<close> handles the first eleven lines of
  the reply, one step each, and each field is a function of the lines with its prefix.
\<close>

lemma metadata_loop_fold:
  "i \<le> 10 \<Longrightarrow> metadata_loop T i reply m = fold (metadata_step T) (take (nat (11 - i)) reply) m"
proof (induction reply arbitrary: i m)
  case Nil
  then show ?case by simp
next
  case (Cons line rest)
  show ?case
  proof (cases "i > 9")
    case True
    with Cons.prems have "i = 10" by simp
    then show ?thesis by simp
  next
    case False
    then have n: "nat (11 - i) = Suc (nat (11 - (i + 1)))" by simp
    have "metadata_loop T i (line # rest) m = metadata_loop T (i + 1) rest (metadata_step T line m)"
      using False by simp
    also have "\<dots> = fold (metadata_step T) (take (nat (11 - (i + 1))) rest) (metadata_step T line m)"
      using False by (intro Cons.IH) simp
    finally show ?thesis by (simp only: n take_Suc_Cons fold_simps)
  qed
qed

lemma get_metadata_fold:
  "get_metadata T reply =
     fold (metadata_step T) (take 11 reply)
       \<lparr>sender = None, recipients = None, timestamp = None, subject = None, lines = length reply\<rparr>"
  using metadata_loop_fold [of 0 T reply] by (simp add: get_metadata_def)

lemma sender_step:
  "sender (metadata_step T line m) =
     (if take 6 line = ''From: '' then Some (get_contact T (drop 6 line)) else sender m)"
  by (simp add: metadata_step_def split: option.splits)

lemma take4_of_take6: "take 6 line = s \<Longrightarrow> take 4 line = take 4 s"
proof -
  assume "take 6 line = s"
  then have "take 4 (take 6 line) = take 4 s" by simp
  then show ?thesis by simp
qed


lemma timestamp_step:
  "timestamp (metadata_step T line m) =
     (if take 6 line = ''Sent: '' then Some (drop 6 line) else timestamp m)"
proof (cases "take 6 line = ''Sent: ''")
  case True
  then have "take 4 line = take 4 ''Sent: ''" by (rule take4_of_take6)
  then show ?thesis using True by (simp add: metadata_step_def)
next
  case False
  then show ?thesis by (simp add: metadata_step_def split: option.splits)
qed

lemma take4_of_take9: "take 9 line = s \<Longrightarrow> take 4 line = take 4 s"
proof -
  assume "take 9 line = s"
  then have "take 4 (take 9 line) = take 4 s" by simp
  then show ?thesis by simp
qed

lemma take6_of_take9: "take 9 line = s \<Longrightarrow> take 6 line = take 6 s"
proof -
  assume "take 9 line = s"
  then have "take 6 (take 9 line) = take 6 s" by simp
  then show ?thesis by simp
qed

lemma subject_step:
  "subject (metadata_step T line m) =
     (if take 9 line = ''Subject: '' then Some (drop 9 line) else subject m)"
proof (cases "take 9 line = ''Subject: ''")
  case True
  then have "take 4 line = take 4 ''Subject: ''" "take 6 line = take 6 ''Subject: ''"
    by (rule take4_of_take9, rule take6_of_take9)
  then show ?thesis using True by (simp add: metadata_step_def)
next
  case False
  then show ?thesis by (simp add: metadata_step_def split: option.splits)
qed

lemma recipients_step:
  "recipients (metadata_step T line m) =
     (if take 4 line = ''To: '' \<or> take 4 line = ''Cc: ''
      then Some ((case recipients m of None \<Rightarrow> [] | Some rs \<Rightarrow> rs) @ [get_contact T (drop 4 line)])
      else recipients m)"
proof (cases "take 6 line = ''From: ''")
  case True
  then have "take 4 line = take 4 ''From: ''" by (rule take4_of_take6)
  then show ?thesis using True by (simp add: metadata_step_def)
next
  case False
  then show ?thesis by (simp add: metadata_step_def split: option.splits)
qed

lemma sender_fold:
  "sender (fold (metadata_step T) xs m) =
     (if filter (\<lambda>l. take 6 l = ''From: '') xs = [] then sender m
      else Some (get_contact T (drop 6 (last (filter (\<lambda>l. take 6 l = ''From: '') xs)))))"
  by (induction xs rule: rev_induct) (simp_all add: sender_step)

lemma timestamp_fold:
  "timestamp (fold (metadata_step T) xs m) =
     (if filter (\<lambda>l. take 6 l = ''Sent: '') xs = [] then timestamp m
      else Some (drop 6 (last (filter (\<lambda>l. take 6 l = ''Sent: '') xs))))"
  by (induction xs rule: rev_induct) (simp_all add: timestamp_step)

lemma subject_fold:
  "subject (fold (metadata_step T) xs m) =
     (if filter (\<lambda>l. take 9 l = ''Subject: '') xs = [] then subject m
      else Some (drop 9 (last (filter (\<lambda>l. take 9 l = ''Subject: '') xs))))"
  by (induction xs rule: rev_induct) (simp_all add: subject_step)

lemma recipients_fold:
  "recipients (fold (metadata_step T) xs m) =
     (if filter (\<lambda>l. take 4 l = ''To: '' \<or> take 4 l = ''Cc: '') xs = [] then recipients m
      else Some ((case recipients m of None \<Rightarrow> [] | Some rs \<Rightarrow> rs) @
                 map (\<lambda>l. get_contact T (drop 4 l))
                   (filter (\<lambda>l. take 4 l = ''To: '' \<or> take 4 l = ''Cc: '') xs)))"
  by (induction xs rule: rev_induct) (simp_all add: recipients_step)

lemma nth_in_take:
  assumes "i < length reply" "i \<le> 10"
  shows "reply ! i \<in> set (take 11 reply)"
proof -
  have "i < length (take 11 reply)" using assms by simp
  then have "take 11 reply ! i \<in> set (take 11 reply)" by (rule nth_mem)
  moreover have "take 11 reply ! i = reply ! i" using assms by simp
  ultimately show ?thesis by simp
qed


text \<open>
  Claim C5. \<^verbatim>\<open>get_metadata\<close> examines the lines at the indices 0 to 10 only. Two replies
  with the same lines at these indices have the same sender, recipients, timestamp and
  subject, whatever stands at index 11 or later. The lines at the indices 0 to 10 are
  recognized by their prefix, and each field has the value they give it: the sender is the
  contact of the last line there that begins with "From: ", the recipients are the contacts
  of the lines there that begin with "To: " or "Cc: ", in order, the timestamp and the
  subject are the rest of the last line there that begins with "Sent: " and "Subject: ";
  a field with no such line there is \<^verbatim>\<open>None\<close>. So a line with a header prefix at an
  index from 0 to 10 sets its field.
\<close>

theorem get_metadata_first_eleven:
  "(take 11 reply' = take 11 reply \<longrightarrow>
      sender (get_metadata T reply') = sender (get_metadata T reply) \<and>
      recipients (get_metadata T reply') = recipients (get_metadata T reply) \<and>
      timestamp (get_metadata T reply') = timestamp (get_metadata T reply) \<and>
      subject (get_metadata T reply') = subject (get_metadata T reply)) \<and>
   sender (get_metadata T reply) =
     (if filter (\<lambda>l. take 6 l = ''From: '') (take 11 reply) = [] then None
      else Some (get_contact T (drop 6 (last (filter (\<lambda>l. take 6 l = ''From: '') (take 11 reply)))))) \<and>
   recipients (get_metadata T reply) =
     (if filter (\<lambda>l. take 4 l = ''To: '' \<or> take 4 l = ''Cc: '') (take 11 reply) = [] then None
      else Some (map (\<lambda>l. get_contact T (drop 4 l))
                   (filter (\<lambda>l. take 4 l = ''To: '' \<or> take 4 l = ''Cc: '') (take 11 reply)))) \<and>
   timestamp (get_metadata T reply) =
     (if filter (\<lambda>l. take 6 l = ''Sent: '') (take 11 reply) = [] then None
      else Some (drop 6 (last (filter (\<lambda>l. take 6 l = ''Sent: '') (take 11 reply))))) \<and>
   subject (get_metadata T reply) =
     (if filter (\<lambda>l. take 9 l = ''Subject: '') (take 11 reply) = [] then None
      else Some (drop 9 (last (filter (\<lambda>l. take 9 l = ''Subject: '') (take 11 reply))))) \<and>
   (i < length reply \<and> i \<le> 10 \<longrightarrow>
      (take 6 (reply ! i) = ''From: '' \<longrightarrow> sender (get_metadata T reply) \<noteq> None) \<and>
      (take 4 (reply ! i) = ''To: '' \<or> take 4 (reply ! i) = ''Cc: '' \<longrightarrow>
         recipients (get_metadata T reply) \<noteq> None) \<and>
      (take 6 (reply ! i) = ''Sent: '' \<longrightarrow> timestamp (get_metadata T reply) \<noteq> None) \<and>
      (take 9 (reply ! i) = ''Subject: '' \<longrightarrow> subject (get_metadata T reply) \<noteq> None))"
proof (intro conjI impI)
  assume eq: "take 11 reply' = take 11 reply"
  show "sender (get_metadata T reply') = sender (get_metadata T reply)"
    by (simp add: get_metadata_fold sender_fold eq)
  show "recipients (get_metadata T reply') = recipients (get_metadata T reply)"
    by (simp add: get_metadata_fold recipients_fold eq)
  show "timestamp (get_metadata T reply') = timestamp (get_metadata T reply)"
    by (simp add: get_metadata_fold timestamp_fold eq)
  show "subject (get_metadata T reply') = subject (get_metadata T reply)"
    by (simp add: get_metadata_fold subject_fold eq)
next
  show "sender (get_metadata T reply) =
     (if filter (\<lambda>l. take 6 l = ''From: '') (take 11 reply) = [] then None
      else Some (get_contact T (drop 6 (last (filter (\<lambda>l. take 6 l = ''From: '') (take 11 reply))))))"
    by (simp add: get_metadata_fold sender_fold)
next
  show "recipients (get_metadata T reply) =
     (if filter (\<lambda>l. take 4 l = ''To: '' \<or> take 4 l = ''Cc: '') (take 11 reply) = [] then None
      else Some (map (\<lambda>l. get_contact T (drop 4 l))
                   (filter (\<lambda>l. take 4 l = ''To: '' \<or> take 4 l = ''Cc: '') (take 11 reply))))"
    by (simp add: get_metadata_fold recipients_fold)
next
  show "timestamp (get_metadata T reply) =
     (if filter (\<lambda>l. take 6 l = ''Sent: '') (take 11 reply) = [] then None
      else Some (drop 6 (last (filter (\<lambda>l. take 6 l = ''Sent: '') (take 11 reply)))))"
    by (simp add: get_metadata_fold timestamp_fold)
next
  show "subject (get_metadata T reply) =
     (if filter (\<lambda>l. take 9 l = ''Subject: '') (take 11 reply) = [] then None
      else Some (drop 9 (last (filter (\<lambda>l. take 9 l = ''Subject: '') (take 11 reply)))))"
    by (simp add: get_metadata_fold subject_fold)
next
  assume "i < length reply \<and> i \<le> 10" and h: "take 6 (reply ! i) = ''From: ''"
  then have "reply ! i \<in> set (take 11 reply)" by (simp add: nth_in_take)
  with h have "filter (\<lambda>l. take 6 l = ''From: '') (take 11 reply) \<noteq> []"
    by (auto simp: filter_empty_conv)
  then show "sender (get_metadata T reply) \<noteq> None"
    by (simp add: get_metadata_fold sender_fold)
next
  assume "i < length reply \<and> i \<le> 10"
    and h: "take 4 (reply ! i) = ''To: '' \<or> take 4 (reply ! i) = ''Cc: ''"
  then have "reply ! i \<in> set (take 11 reply)" by (simp add: nth_in_take)
  with h have "filter (\<lambda>l. take 4 l = ''To: '' \<or> take 4 l = ''Cc: '') (take 11 reply) \<noteq> []"
    by (auto simp: filter_empty_conv)
  then show "recipients (get_metadata T reply) \<noteq> None"
    by (simp add: get_metadata_fold recipients_fold)
next
  assume "i < length reply \<and> i \<le> 10" and h: "take 6 (reply ! i) = ''Sent: ''"
  then have "reply ! i \<in> set (take 11 reply)" by (simp add: nth_in_take)
  with h have "filter (\<lambda>l. take 6 l = ''Sent: '') (take 11 reply) \<noteq> []"
    by (auto simp: filter_empty_conv)
  then show "timestamp (get_metadata T reply) \<noteq> None"
    by (simp add: get_metadata_fold timestamp_fold)
next
  assume "i < length reply \<and> i \<le> 10" and h: "take 9 (reply ! i) = ''Subject: ''"
  then have "reply ! i \<in> set (take 11 reply)" by (simp add: nth_in_take)
  with h have "filter (\<lambda>l. take 9 l = ''Subject: '') (take 11 reply) \<noteq> []"
    by (auto simp: filter_empty_conv)
  then show "subject (get_metadata T reply) \<noteq> None"
    by (simp add: get_metadata_fold subject_fold)
qed

text \<open>
  The statement at two replies of twelve lines that differ at index 11 only: the line
  "Subject: x" at index 10 gives the subject, and the line "From: Zed Young" at index 11
  gives no sender.
\<close>

theorem get_metadata_first_eleven_witness:
  "take 11 [''a'', ''b'', ''c'', ''d'', ''e'', ''f'', ''g'', ''h'', ''i'', ''j'', ''Subject: x'', ''From: Zed Young'']
     = take 11 [''a'', ''b'', ''c'', ''d'', ''e'', ''f'', ''g'', ''h'', ''i'', ''j'', ''Subject: x'', ''other''] \<and>
   (10::nat) < length [''a'', ''b'', ''c'', ''d'', ''e'', ''f'', ''g'', ''h'', ''i'', ''j'', ''Subject: x'', ''other''] \<and>
   take 9 ([''a'', ''b'', ''c'', ''d'', ''e'', ''f'', ''g'', ''h'', ''i'', ''j'', ''Subject: x'', ''other''] ! 10) = ''Subject: '' \<and>
   sender (get_metadata {} [''a'', ''b'', ''c'', ''d'', ''e'', ''f'', ''g'', ''h'', ''i'', ''j'', ''Subject: x'', ''From: Zed Young'']) = None \<and>
   recipients (get_metadata {} [''a'', ''b'', ''c'', ''d'', ''e'', ''f'', ''g'', ''h'', ''i'', ''j'', ''Subject: x'', ''From: Zed Young'']) = None \<and>
   timestamp (get_metadata {} [''a'', ''b'', ''c'', ''d'', ''e'', ''f'', ''g'', ''h'', ''i'', ''j'', ''Subject: x'', ''From: Zed Young'']) = None \<and>
   subject (get_metadata {} [''a'', ''b'', ''c'', ''d'', ''e'', ''f'', ''g'', ''h'', ''i'', ''j'', ''Subject: x'', ''From: Zed Young'']) = Some ''x'' \<and>
   sender (get_metadata {} [''a'', ''b'', ''c'', ''d'', ''e'', ''f'', ''g'', ''h'', ''i'', ''j'', ''Subject: x'', ''other'']) = None \<and>
   subject (get_metadata {} [''a'', ''b'', ''c'', ''d'', ''e'', ''f'', ''g'', ''h'', ''i'', ''j'', ''Subject: x'', ''other'']) = Some ''x'' \<and>
   subject (get_metadata {} [''a'', ''b'', ''c'', ''d'', ''e'', ''f'', ''g'', ''h'', ''i'', ''j'', ''Subject: x'', ''other'']) \<noteq> None"
proof -
  have h1: "take 11 [''a'', ''b'', ''c'', ''d'', ''e'', ''f'', ''g'', ''h'', ''i'', ''j'', ''Subject: x'', ''From: Zed Young'']
     = take 11 [''a'', ''b'', ''c'', ''d'', ''e'', ''f'', ''g'', ''h'', ''i'', ''j'', ''Subject: x'', ''other'']"
    by code_simp
  have h2: "(10::nat) < length [''a'', ''b'', ''c'', ''d'', ''e'', ''f'', ''g'', ''h'', ''i'', ''j'', ''Subject: x'', ''other'']"
    by simp
  have h3: "take 9 ([''a'', ''b'', ''c'', ''d'', ''e'', ''f'', ''g'', ''h'', ''i'', ''j'', ''Subject: x'', ''other''] ! 10) = ''Subject: ''"
    by code_simp
  have f: "filter (\<lambda>l. take 6 l = ''From: '') (take 11 [''a'', ''b'', ''c'', ''d'', ''e'', ''f'', ''g'', ''h'', ''i'', ''j'', ''Subject: x'', ''other'']) = []"
    by code_simp
  have r: "filter (\<lambda>l. take 4 l = ''To: '' \<or> take 4 l = ''Cc: '') (take 11 [''a'', ''b'', ''c'', ''d'', ''e'', ''f'', ''g'', ''h'', ''i'', ''j'', ''Subject: x'', ''other'']) = []"
    by code_simp
  have t: "filter (\<lambda>l. take 6 l = ''Sent: '') (take 11 [''a'', ''b'', ''c'', ''d'', ''e'', ''f'', ''g'', ''h'', ''i'', ''j'', ''Subject: x'', ''other'']) = []"
    by code_simp
  have s: "filter (\<lambda>l. take 9 l = ''Subject: '') (take 11 [''a'', ''b'', ''c'', ''d'', ''e'', ''f'', ''g'', ''h'', ''i'', ''j'', ''Subject: x'', ''other'']) = [''Subject: x'']"
    by code_simp
  have d: "drop 9 (last [''Subject: x'']) = ''x''"
    by code_simp
  have e: "sender (get_metadata {} [''a'', ''b'', ''c'', ''d'', ''e'', ''f'', ''g'', ''h'', ''i'', ''j'', ''Subject: x'', ''From: Zed Young'']) = sender (get_metadata {} [''a'', ''b'', ''c'', ''d'', ''e'', ''f'', ''g'', ''h'', ''i'', ''j'', ''Subject: x'', ''other'']) \<and>
      recipients (get_metadata {} [''a'', ''b'', ''c'', ''d'', ''e'', ''f'', ''g'', ''h'', ''i'', ''j'', ''Subject: x'', ''From: Zed Young'']) = recipients (get_metadata {} [''a'', ''b'', ''c'', ''d'', ''e'', ''f'', ''g'', ''h'', ''i'', ''j'', ''Subject: x'', ''other'']) \<and>
      timestamp (get_metadata {} [''a'', ''b'', ''c'', ''d'', ''e'', ''f'', ''g'', ''h'', ''i'', ''j'', ''Subject: x'', ''From: Zed Young'']) = timestamp (get_metadata {} [''a'', ''b'', ''c'', ''d'', ''e'', ''f'', ''g'', ''h'', ''i'', ''j'', ''Subject: x'', ''other'']) \<and>
      subject (get_metadata {} [''a'', ''b'', ''c'', ''d'', ''e'', ''f'', ''g'', ''h'', ''i'', ''j'', ''Subject: x'', ''From: Zed Young'']) = subject (get_metadata {} [''a'', ''b'', ''c'', ''d'', ''e'', ''f'', ''g'', ''h'', ''i'', ''j'', ''Subject: x'', ''other''])"
    using h1 get_metadata_first_eleven [of "[''a'', ''b'', ''c'', ''d'', ''e'', ''f'', ''g'', ''h'', ''i'', ''j'', ''Subject: x'', ''From: Zed Young'']" "[''a'', ''b'', ''c'', ''d'', ''e'', ''f'', ''g'', ''h'', ''i'', ''j'', ''Subject: x'', ''other'']" "{}" 10]
    by blast
  have v: "sender (get_metadata {} [''a'', ''b'', ''c'', ''d'', ''e'', ''f'', ''g'', ''h'', ''i'', ''j'', ''Subject: x'', ''other'']) = None \<and>
      recipients (get_metadata {} [''a'', ''b'', ''c'', ''d'', ''e'', ''f'', ''g'', ''h'', ''i'', ''j'', ''Subject: x'', ''other'']) = None \<and>
      timestamp (get_metadata {} [''a'', ''b'', ''c'', ''d'', ''e'', ''f'', ''g'', ''h'', ''i'', ''j'', ''Subject: x'', ''other'']) = None \<and>
      subject (get_metadata {} [''a'', ''b'', ''c'', ''d'', ''e'', ''f'', ''g'', ''h'', ''i'', ''j'', ''Subject: x'', ''other'']) = Some ''x''"
    using get_metadata_first_eleven [of "[''a'', ''b'', ''c'', ''d'', ''e'', ''f'', ''g'', ''h'', ''i'', ''j'', ''Subject: x'', ''From: Zed Young'']" "[''a'', ''b'', ''c'', ''d'', ''e'', ''f'', ''g'', ''h'', ''i'', ''j'', ''Subject: x'', ''other'']" "{}" 10]
    unfolding f r t s d by simp
  show ?thesis
    using h1 h2 h3 e v by simp
qed

text \<open>
  Claim C6, as stated: of two lines beginning with "From: " in the scanned range the
  first gives the sender. It fails: each such line overwrites the sender, so the second
  one is returned.
\<close>

theorem get_metadata_first_from_counterexample:
  "sender (get_metadata {} [''From: Alice Smith'', ''From: Bob Jones'']) = Some (get_contact {} ''Bob Jones'') \<and>
   sender (get_metadata {} [''From: Alice Smith'', ''From: Bob Jones'']) \<noteq> Some (get_contact {} ''Alice Smith'')"
  by code_simp

text \<open>
  Claim C6, amended. For every reply with two or more lines beginning with "From: "
  within the indices 0 to 10, \<^verbatim>\<open>get_metadata\<close> returns as sender the contact parsed from
  the last such line; the earlier ones are overwritten. The last occurrence wins for the
  timestamp and the subject as well. The recipients accumulate: they are the contacts of
  all the lines within the indices 0 to 10 that begin with "To: " or "Cc: ", in the order
  of the lines, and \<^verbatim>\<open>None\<close> if there is no such line.
\<close>

theorem get_metadata_last_wins:
  assumes "2 \<le> length (filter (\<lambda>l. take 6 l = ''From: '') (take 11 reply))"
  shows "sender (get_metadata T reply) =
           Some (get_contact T (drop 6 (last (filter (\<lambda>l. take 6 l = ''From: '') (take 11 reply))))) \<and>
         timestamp (get_metadata T reply) =
           (if filter (\<lambda>l. take 6 l = ''Sent: '') (take 11 reply) = [] then None
            else Some (drop 6 (last (filter (\<lambda>l. take 6 l = ''Sent: '') (take 11 reply))))) \<and>
         subject (get_metadata T reply) =
           (if filter (\<lambda>l. take 9 l = ''Subject: '') (take 11 reply) = [] then None
            else Some (drop 9 (last (filter (\<lambda>l. take 9 l = ''Subject: '') (take 11 reply))))) \<and>
         recipients (get_metadata T reply) =
           (if filter (\<lambda>l. take 4 l = ''To: '' \<or> take 4 l = ''Cc: '') (take 11 reply) = [] then None
            else Some (map (\<lambda>l. get_contact T (drop 4 l))
                         (filter (\<lambda>l. take 4 l = ''To: '' \<or> take 4 l = ''Cc: '') (take 11 reply))))"
proof -
  have "filter (\<lambda>l. take 6 l = ''From: '') (take 11 reply) \<noteq> []"
    using assms by auto
  then show ?thesis
    by (simp add: get_metadata_fold sender_fold timestamp_fold subject_fold recipients_fold)
qed

text \<open>
  The amended statement at a reply with two "From: " lines, two "Sent: " lines, a "To: "
  line and a "Cc: " line: the second sender and timestamp are returned, and both
  recipients, in order.
\<close>

theorem get_metadata_last_wins_witness:
  "2 \<le> length (filter (\<lambda>l. take 6 l = ''From: '') (take 11 [''From: Alice Smith'', ''To: Carl Young'', ''Sent: Monday'', ''From: Bob Jones'', ''Cc: Dora Zeller'', ''Sent: Friday''])) \<and>
   sender (get_metadata {} [''From: Alice Smith'', ''To: Carl Young'', ''Sent: Monday'', ''From: Bob Jones'', ''Cc: Dora Zeller'', ''Sent: Friday''])
     = Some \<lparr>name_original = ''Bob Jones'', name = ''Bob Jones'', address = None\<rparr> \<and>
   timestamp (get_metadata {} [''From: Alice Smith'', ''To: Carl Young'', ''Sent: Monday'', ''From: Bob Jones'', ''Cc: Dora Zeller'', ''Sent: Friday'']) = Some ''Friday'' \<and>
   subject (get_metadata {} [''From: Alice Smith'', ''To: Carl Young'', ''Sent: Monday'', ''From: Bob Jones'', ''Cc: Dora Zeller'', ''Sent: Friday'']) = None \<and>
   recipients (get_metadata {} [''From: Alice Smith'', ''To: Carl Young'', ''Sent: Monday'', ''From: Bob Jones'', ''Cc: Dora Zeller'', ''Sent: Friday''])
     = Some [\<lparr>name_original = ''Carl Young'', name = ''Carl Young'', address = None\<rparr>,
             \<lparr>name_original = ''Dora Zeller'', name = ''Dora Zeller'', address = None\<rparr>]"
proof -
  have f: "filter (\<lambda>l. take 6 l = ''From: '') (take 11 [''From: Alice Smith'', ''To: Carl Young'', ''Sent: Monday'', ''From: Bob Jones'', ''Cc: Dora Zeller'', ''Sent: Friday''])
        = [''From: Alice Smith'', ''From: Bob Jones'']"
    by code_simp
  have s: "filter (\<lambda>l. take 6 l = ''Sent: '') (take 11 [''From: Alice Smith'', ''To: Carl Young'', ''Sent: Monday'', ''From: Bob Jones'', ''Cc: Dora Zeller'', ''Sent: Friday''])
        = [''Sent: Monday'', ''Sent: Friday'']"
    by code_simp
  have u: "filter (\<lambda>l. take 9 l = ''Subject: '') (take 11 [''From: Alice Smith'', ''To: Carl Young'', ''Sent: Monday'', ''From: Bob Jones'', ''Cc: Dora Zeller'', ''Sent: Friday'']) = []"
    by code_simp
  have r: "filter (\<lambda>l. take 4 l = ''To: '' \<or> take 4 l = ''Cc: '') (take 11 [''From: Alice Smith'', ''To: Carl Young'', ''Sent: Monday'', ''From: Bob Jones'', ''Cc: Dora Zeller'', ''Sent: Friday''])
        = [''To: Carl Young'', ''Cc: Dora Zeller'']"
    by code_simp
  have h: "2 \<le> length (filter (\<lambda>l. take 6 l = ''From: '') (take 11 [''From: Alice Smith'', ''To: Carl Young'', ''Sent: Monday'', ''From: Bob Jones'', ''Cc: Dora Zeller'', ''Sent: Friday'']))"
    unfolding f by simp
  have c: "get_contact {} (drop 6 (last [''From: Alice Smith'', ''From: Bob Jones'']))
           = \<lparr>name_original = ''Bob Jones'', name = ''Bob Jones'', address = None\<rparr>"
    by code_simp
  have m: "map (\<lambda>l. get_contact {} (drop 4 l)) [''To: Carl Young'', ''Cc: Dora Zeller'']
           = [\<lparr>name_original = ''Carl Young'', name = ''Carl Young'', address = None\<rparr>,
              \<lparr>name_original = ''Dora Zeller'', name = ''Dora Zeller'', address = None\<rparr>]"
    by code_simp
  show ?thesis
    using get_metadata_last_wins [OF h, of "{}"] h unfolding f s u r c m by simp
qed

section \<open>Properties of the title set\<close>

text \<open>
  \<^verbatim>\<open>str.split()\<close> splits at every whitespace, newlines included, so the tokens of a text
  are the tokens of its lines.
\<close>

lemma split_acc_lines:
  "split_acc cur s =
     (case split_on newline s of [] \<Rightarrow> [] | l # ls \<Rightarrow> split_acc cur l @ concat (map py_split ls))"
proof (induction s arbitrary: cur)
  case Nil
  then show ?case by simp
next
  case (Cons c cs)
  obtain l ls where sp: "split_on newline cs = l # ls"
    using split_on_not_Nil [of newline cs] by (cases "split_on newline cs") auto
  have IH: "\<And>cur. split_acc cur cs = split_acc cur l @ concat (map py_split ls)"
    using Cons.IH by (simp add: sp)
  show ?case
  proof (cases "c = newline")
    case True
    then show ?thesis
      using IH [of "[]"] isspace_newline by (simp add: sp py_split_def)
  next
    case False
    then show ?thesis
      using IH [of "[]"] IH [of "cur @ [c]"] by (simp add: sp)
  qed
qed

lemma py_split_lines: "py_split contents = concat (map py_split (split_on newline contents))"
  using split_acc_lines [of "[]" contents] split_on_not_Nil [of newline contents]
  by (cases "split_on newline contents") (simp_all add: py_split_def)

lemma split_acc_nonempty: "t \<in> set (split_acc cur s) \<Longrightarrow> t \<noteq> []"
  by (induction s arbitrary: cur) (auto split: if_splits)

lemma titles_filter_tokens:
  "\<forall>t\<in>set ts. t \<noteq> [] \<Longrightarrow> titles_filter ts = Inr (filter (\<lambda>t. hd t \<noteq> CHR ''#'') ts)"
  by (induction ts) (auto split: list.splits)

text \<open>
  Claim C8, as stated: every line of the title list whose first character is \<^verbatim>\<open>#\<close> is a
  comment, and no token on such a line is a member of the title set. It fails on the
  one-line list \<^verbatim>\<open># Dr Jr\<close>: the test \<^verbatim>\<open>t[0] != "#"\<close> is on each token of
  \<^verbatim>\<open>read().split()\<close>, so only the token \<^verbatim>\<open>#\<close> is left out and \<^verbatim>\<open>Dr\<close> and \<^verbatim>\<open>Jr\<close>
  are titles.
\<close>

theorem TITLES_comment_line_counterexample:
  "hd ''# Dr Jr'' = CHR ''#'' \<and> ''Dr'' \<in> set (py_split ''# Dr Jr'') \<and>
   TITLES ''# Dr Jr'' = Inr {''Dr'', ''Jr''}"
  by code_simp

text \<open>
  Claim C8, amended: loading the title list raises nothing, and the title set is exactly
  the set of whitespace-separated tokens, of any line, whose own first character is not
  \<^verbatim>\<open>#\<close>. A token is left out for its own first character only; the first character of
  its line plays no part.
\<close>

theorem TITLES_per_token:
  "TITLES contents =
     Inr {t. \<exists>l\<in>set (split_on newline contents). t \<in> set (py_split l) \<and> hd t \<noteq> CHR ''#''}"
proof -
  have "\<forall>t\<in>set (py_split contents). t \<noteq> []"
    using split_acc_nonempty by (auto simp: py_split_def)
  then have "titles_filter (py_split contents) =
               Inr (filter (\<lambda>t. hd t \<noteq> CHR ''#'') (py_split contents))"
    by (rule titles_filter_tokens)
  then have t: "TITLES contents = Inr {t \<in> set (py_split contents). hd t \<noteq> CHR ''#''}"
    by (simp add: TITLES_def)
  have s: "set (py_split contents) = (\<Union>l\<in>set (split_on newline contents). set (py_split l))"
    by (subst py_split_lines) simp
  have "{t \<in> set (py_split contents). hd t \<noteq> CHR ''#''} =
        {t. \<exists>l\<in>set (split_on newline contents). t \<in> set (py_split l) \<and> hd t \<noteq> CHR ''#''}"
    unfolding s by auto
  with t show ?thesis by simp
qed

text \<open>
  The amended statement at a two-line list: \<^verbatim>\<open>Dr\<close> on the line that begins with \<^verbatim>\<open>#\<close>
  is a title, and \<^verbatim>\<open>#x\<close> on the other line is not.
\<close>

theorem TITLES_per_token_witness:
  "TITLES ''# Dr\<newline>Mr #x'' = Inr {''Dr'', ''Mr''}"
proof -
  have l: "split_on newline ''# Dr\<newline>Mr #x'' = [''# Dr'', ''Mr #x'']"
    by code_simp
  have a: "py_split ''# Dr'' = [''#'', ''Dr'']"
    by code_simp
  have b: "py_split ''Mr #x'' = [''Mr'', ''#x'']"
    by code_simp
  have "{t. \<exists>l\<in>set [''# Dr'', ''Mr #x'']. t \<in> set (py_split l) \<and> hd t \<noteq> CHR ''#''} = {''Dr'', ''Mr''}"
    by (auto simp: a b)
  then show ?thesis
    using TITLES_per_token [of "''# Dr\<newline>Mr #x''"] unfolding l by simp
qed

end
